theory Spec2Isabelle
  imports Main "HOL-Library.Word"
begin

unbundle bit_operations_syntax

section \<open>The ordered hash table of fio\_hashmap.h\<close>

text \<open>
  The table is a C structure holding a bucket array and the sentinel of a circular doubly
  linked list of heap nodes. Slots of the bucket array point at list nodes, and the list
  functions read and write nodes through pointers, so the model keeps an explicit store:
  \<^item> \<open>uintptr_t\<close> and \<open>size_t\<close> are 64-bit words (an LP64 platform);
  \<^item> a \<open>void *\<close> value is a natural number, \<open>0\<close> being \<open>NULL\<close>;
  \<^item> a pointer to a list node is \<open>Null\<close>, \<open>Items\<close> (the address of the sentinel
    \<open>hash->items\<close>, which lives inside the table structure) or \<open>Node a\<close>, the address
    of a block obtained from \<open>malloc\<close>;
  \<^item> the store is the list of all blocks ever allocated, the address of a block being its
    index: \<open>malloc\<close> appends a block, \<open>free\<close> replaces the block by \<open>None\<close>. A freed
    address is never handed out again, so every access to a freed block is detected;
  \<^item> reading or writing through \<open>Null\<close> or through the address of a block that is not
    live, and reading the bucket array out of range, are undefined behaviour in C: the
    model returns an \<open>error\<close>;
  \<^item> \<open>malloc\<close> and \<open>calloc\<close> always succeed, whatever the size (on failure the C
    code prints a message and leaves the process);
  \<^item> a loop that need not end is a partial function into \<open>option\<close>: \<open>None\<close> stands
    for a call that never returns. When the mask has all 64 bits set the capacity
    \<open>mask + 1\<close> wraps to 0, no slot can be found any more and \<open>fio_hash_rehash\<close> never
    returns.
\<close>

type_synonym uintptr_t = "64 word"
type_synonym size_t = "64 word"
type_synonym voidp = nat

datatype ptr = Null | Items | Node nat

datatype error = NullDeref | Dangling | OutOfBounds | BadFree

record fio_hash_ls_s =
  ls_prev :: ptr
  ls_next :: ptr
  ls_key :: uintptr_t
  ls_obj :: voidp

record fio_hash_map_info_s =
  info_key :: uintptr_t
  info_container :: ptr

record fio_hash_s =
  h_count :: uintptr_t
  h_mask :: uintptr_t
  h_items :: fio_hash_ls_s
  map_capa :: uintptr_t
  map_data :: "fio_hash_map_info_s list"
  heap :: "fio_hash_ls_s option list"

definition HASH_INITIAL_CAPACITY :: uintptr_t where
  "HASH_INITIAL_CAPACITY = 16"

definition FIO_HASH_MAX_MAP_SEEK :: uintptr_t where
  "FIO_HASH_MAX_MAP_SEEK = 256"

text \<open>A slot as \<open>calloc\<close> leaves it: all bytes zero.\<close>

definition zero_slot :: fio_hash_map_info_s where
  "zero_slot = \<lparr>info_key = 0, info_container = Null\<rparr>"

subsection \<open>Memory access\<close>

fun bind_e :: "error + 'a \<Rightarrow> ('a \<Rightarrow> error + 'b) \<Rightarrow> error + 'b" where
  "bind_e (Inl e) f = Inl e"
| "bind_e (Inr x) f = f x"

definition block :: "fio_hash_s \<Rightarrow> nat \<Rightarrow> fio_hash_ls_s option" where
  "block h a = (if a < length (heap h) then heap h ! a else None)"

definition load :: "fio_hash_s \<Rightarrow> ptr \<Rightarrow> error + fio_hash_ls_s" where
  "load h p =
     (case p of
        Null \<Rightarrow> Inl NullDeref
      | Items \<Rightarrow> Inr (h_items h)
      | Node a \<Rightarrow> (case block h a of None \<Rightarrow> Inl Dangling | Some n \<Rightarrow> Inr n))"

definition store :: "fio_hash_s \<Rightarrow> ptr \<Rightarrow> fio_hash_ls_s \<Rightarrow> error + fio_hash_s" where
  "store h p n =
     (case p of
        Null \<Rightarrow> Inl NullDeref
      | Items \<Rightarrow> Inr (h\<lparr>h_items := n\<rparr>)
      | Node a \<Rightarrow> (case block h a of
                    None \<Rightarrow> Inl Dangling
                  | Some _ \<Rightarrow> Inr (h\<lparr>heap := (heap h)[a := Some n]\<rparr>)))"

text \<open>\<open>free(p)\<close>: nothing for \<open>NULL\<close>; the sentinel was not allocated; a block is freed once.\<close>

definition free :: "fio_hash_s \<Rightarrow> ptr \<Rightarrow> error + fio_hash_s" where
  "free h p =
     (case p of
        Null \<Rightarrow> Inr h
      | Items \<Rightarrow> Inl BadFree
      | Node a \<Rightarrow> (case block h a of
                    None \<Rightarrow> Inl BadFree
                  | Some _ \<Rightarrow> Inr (h\<lparr>heap := (heap h)[a := None]\<rparr>)))"

subsection \<open>The linked list of containers\<close>

text \<open>
  \<open>fio_hash_ls_push\<close>: the new block is written from \<open>pos\<close> and \<open>pos->next\<close>, then
  \<open>pos->next->prev = item\<close> and \<open>pos->next = item\<close>.
\<close>

definition fio_hash_ls_push :: "fio_hash_s \<Rightarrow> ptr \<Rightarrow> voidp \<Rightarrow> uintptr_t \<Rightarrow> error + fio_hash_s" where
  "fio_hash_ls_push h pos obj key =
     bind_e (load h pos) (\<lambda>p.
       let item = Node (length (heap h));
           h1 = h\<lparr>heap := heap h @
                       [Some \<lparr>ls_prev = pos, ls_next = ls_next p, ls_key = key, ls_obj = obj\<rparr>]\<rparr>
       in bind_e (load h1 pos) (\<lambda>p1.
          bind_e (load h1 (ls_next p1)) (\<lambda>q.
          bind_e (store h1 (ls_next p1) (q\<lparr>ls_prev := item\<rparr>)) (\<lambda>h2.
          bind_e (load h2 pos) (\<lambda>p2.
          store h2 pos (p2\<lparr>ls_next := item\<rparr>))))))"

definition fio_hash_ls_unshift :: "fio_hash_s \<Rightarrow> ptr \<Rightarrow> voidp \<Rightarrow> uintptr_t \<Rightarrow> error + fio_hash_s" where
  "fio_hash_ls_unshift h pos obj key =
     bind_e (load h pos) (\<lambda>p. fio_hash_ls_push h (ls_prev p) obj key)"

text \<open>
  \<open>fio_hash_ls_remove\<close>, statement by statement:
  \<open>node->next->prev = node->prev->next; node->prev->next = node->next->prev; free(node)\<close>.
\<close>

definition fio_hash_ls_remove :: "fio_hash_s \<Rightarrow> ptr \<Rightarrow> error + (voidp \<times> fio_hash_s)" where
  "fio_hash_ls_remove h node =
     bind_e (load h node) (\<lambda>n.
     bind_e (load h (ls_prev n)) (\<lambda>p.
     bind_e (load h (ls_next n)) (\<lambda>q.
     bind_e (store h (ls_next n) (q\<lparr>ls_prev := ls_next p\<rparr>)) (\<lambda>h1.
     bind_e (load h1 node) (\<lambda>n1.
     bind_e (load h1 (ls_next n1)) (\<lambda>q1.
     bind_e (load h1 (ls_prev n1)) (\<lambda>p1.
     bind_e (store h1 (ls_prev n1) (p1\<lparr>ls_next := ls_prev q1\<rparr>)) (\<lambda>h2.
     bind_e (free h2 node) (\<lambda>h3.
     Inr (ls_obj n, h3))))))))))"

subsection \<open>Allocation\<close>

definition fio_hash_new :: fio_hash_s where
  "fio_hash_new =
     \<lparr>h_count = 0,
      h_mask = HASH_INITIAL_CAPACITY - 1,
      h_items = \<lparr>ls_prev = Items, ls_next = Items, ls_key = 0, ls_obj = 0\<rparr>,
      map_capa = HASH_INITIAL_CAPACITY,
      map_data = replicate (unat HASH_INITIAL_CAPACITY) zero_slot,
      heap = []\<rparr>"

subsection \<open>Seeking a slot\<close>

definition fio_hash_map_cuckoo_steps :: "uintptr_t \<Rightarrow> uintptr_t" where
  "fio_hash_map_cuckoo_steps step = step * 3"

text \<open>
  The loop of \<open>fio_hash_seek\<close>. \<open>pos\<close> is the index of the slot \<open>pos\<close> points at; the
  result is the index of the slot returned, \<open>None\<close> for \<open>NULL\<close>. The next position is
  computed from \<open>i\<close> before \<open>i\<close> is incremented.
\<close>

function seek_loop :: "fio_hash_s \<Rightarrow> uintptr_t \<Rightarrow> nat \<Rightarrow> uintptr_t \<Rightarrow> uintptr_t \<Rightarrow> error + nat option" where
  "seek_loop h key pos i limit =
     (if i < limit then
        (if pos < length (map_data h) then
           (if info_key (map_data h ! pos) = 0 \<or> info_key (map_data h ! pos) = key
            then Inr (Some pos)
            else seek_loop h key
                   (unat (((key AND h_mask h) + fio_hash_map_cuckoo_steps i) AND h_mask h))
                   (i + 1) limit)
         else Inl OutOfBounds)
      else Inr None)"
  by pat_completeness auto
termination
proof (relation "measure (\<lambda>(h, key, pos, i, limit). unat limit - unat i)")
  show "wf (measure (\<lambda>(h, key, pos, i, limit). unat limit - unat i))"
    by simp
next
  fix h :: fio_hash_s and key :: uintptr_t and pos :: nat and i limit :: uintptr_t
  assume "i < limit"
  then have "unat i < unat limit"
    by (simp add: word_less_nat_alt)
  moreover from \<open>i < limit\<close> have "unat (i + 1) = Suc (unat i)"
    by unat_arith
  ultimately show "((h, key, unat (((key AND h_mask h) + fio_hash_map_cuckoo_steps i) AND h_mask h),
           i + 1, limit), (h, key, pos, i, limit))
        \<in> measure (\<lambda>(h, key, pos, i, limit). unat limit - unat i)"
    by simp
qed

definition seek_limit :: "fio_hash_s \<Rightarrow> uintptr_t" where
  "seek_limit h =
     (if map_capa h > FIO_HASH_MAX_MAP_SEEK then FIO_HASH_MAX_MAP_SEEK
      else drop_bit 1 (map_capa h))"

definition fio_hash_seek :: "fio_hash_s \<Rightarrow> uintptr_t \<Rightarrow> error + nat option" where
  "fio_hash_seek h key = seek_loop h key (unat (key AND h_mask h)) 0 (seek_limit h)"

text \<open>
  The same loop, collecting the indices of the slots whose key it reads, in the order it
  reads them.
\<close>

function seek_probes_loop :: "fio_hash_s \<Rightarrow> uintptr_t \<Rightarrow> nat \<Rightarrow> uintptr_t \<Rightarrow> uintptr_t \<Rightarrow> nat list" where
  "seek_probes_loop h key pos i limit =
     (if i < limit then
        (if pos < length (map_data h) then
           (if info_key (map_data h ! pos) = 0 \<or> info_key (map_data h ! pos) = key
            then [pos]
            else pos # seek_probes_loop h key
                   (unat (((key AND h_mask h) + fio_hash_map_cuckoo_steps i) AND h_mask h))
                   (i + 1) limit)
         else [])
      else [])"
  by pat_completeness auto
termination
proof (relation "measure (\<lambda>(h, key, pos, i, limit). unat limit - unat i)")
  show "wf (measure (\<lambda>(h, key, pos, i, limit). unat limit - unat i))"
    by simp
next
  fix h :: fio_hash_s and key :: uintptr_t and pos :: nat and i limit :: uintptr_t
  assume "i < limit"
  then have "unat i < unat limit"
    by (simp add: word_less_nat_alt)
  moreover from \<open>i < limit\<close> have "unat (i + 1) = Suc (unat i)"
    by unat_arith
  ultimately show "((h, key, unat (((key AND h_mask h) + fio_hash_map_cuckoo_steps i) AND h_mask h),
           i + 1, limit), (h, key, pos, i, limit))
        \<in> measure (\<lambda>(h, key, pos, i, limit). unat limit - unat i)"
    by simp
qed

definition fio_hash_seek_probes :: "fio_hash_s \<Rightarrow> uintptr_t \<Rightarrow> nat list" where
  "fio_hash_seek_probes h key =
     seek_probes_loop h key (unat (key AND h_mask h)) 0 (seek_limit h)"

subsection \<open>Finding\<close>

definition fio_hash_find :: "fio_hash_s \<Rightarrow> uintptr_t \<Rightarrow> error + voidp" where
  "fio_hash_find h key =
     bind_e (fio_hash_seek h key) (\<lambda>info.
       case info of
         None \<Rightarrow> Inr 0
       | Some i \<Rightarrow>
           (if info_container (map_data h ! i) = Null then Inr 0
            else bind_e (load h (info_container (map_data h ! i))) (\<lambda>n. Inr (ls_obj n))))"

subsection \<open>Rehashing\<close>

text \<open>
  The walk over the list inside \<open>fio_hash_rehash\<close>. It ends with \<open>True\<close> when every
  container has a slot and with \<open>False\<close> at the \<open>goto retry_rehashing\<close>.
\<close>

partial_function (option) rehash_walk :: "fio_hash_s \<Rightarrow> ptr \<Rightarrow> (error + bool \<times> fio_hash_s) option" where
  "rehash_walk h pos =
     (if pos = Items then Some (Inr (True, h))
      else case load h pos of
             Inl e \<Rightarrow> Some (Inl e)
           | Inr n \<Rightarrow>
               (case fio_hash_seek h (ls_key n) of
                  Inl e \<Rightarrow> Some (Inl e)
                | Inr None \<Rightarrow> Some (Inr (False, h))
                | Inr (Some i) \<Rightarrow>
                    rehash_walk
                      (h\<lparr>map_data := (map_data h)
                            [i := \<lparr>info_key = ls_key n, info_container = pos\<rparr>]\<rparr>)
                      (ls_next n)))"

declare rehash_walk.simps [code]

definition rehash_grow :: "fio_hash_s \<Rightarrow> fio_hash_s" where
  "rehash_grow h =
     (let m = push_bit 1 (h_mask h) OR 1
      in h\<lparr>h_mask := m, map_capa := m + 1, map_data := replicate (unat (m + 1)) zero_slot\<rparr>)"

partial_function (option) fio_hash_rehash :: "fio_hash_s \<Rightarrow> (error + fio_hash_s) option" where
  "fio_hash_rehash h =
     (case rehash_walk (rehash_grow h) (ls_next (h_items (rehash_grow h))) of
        None \<Rightarrow> None
      | Some (Inl e) \<Rightarrow> Some (Inl e)
      | Some (Inr (done, h2)) \<Rightarrow> if done then Some (Inr h2) else fio_hash_rehash h2)"

declare fio_hash_rehash.simps [code]

subsection \<open>Inserting, replacing and removing\<close>

text \<open>The loop \<open>while (!info) { fio_hash_rehash(hash); info = fio_hash_seek(hash, key); }\<close>.\<close>

partial_function (option) insert_rehash_loop ::
    "fio_hash_s \<Rightarrow> uintptr_t \<Rightarrow> nat option \<Rightarrow> (error + nat \<times> fio_hash_s) option" where
  "insert_rehash_loop h key info =
     (case info of
        Some i \<Rightarrow> Some (Inr (i, h))
      | None \<Rightarrow>
          (case fio_hash_rehash h of
             None \<Rightarrow> None
           | Some (Inl e) \<Rightarrow> Some (Inl e)
           | Some (Inr h1) \<Rightarrow>
               (case fio_hash_seek h1 key of
                  Inl e \<Rightarrow> Some (Inl e)
                | Inr info1 \<Rightarrow> insert_rehash_loop h1 key info1)))"

declare insert_rehash_loop.simps [code]

text \<open>The rest of \<open>fio_hash_insert\<close>, once \<open>info\<close> points at slot \<open>i\<close>.\<close>

definition insert_at :: "fio_hash_s \<Rightarrow> uintptr_t \<Rightarrow> voidp \<Rightarrow> nat \<Rightarrow> error + voidp \<times> fio_hash_s" where
  "insert_at h key obj i =
     (if i < length (map_data h) then
        (if info_container (map_data h ! i) = Null then
           (if obj = 0 then Inr (0, h)
            else bind_e (fio_hash_ls_unshift h Items obj key) (\<lambda>h1.
                   let h2 = h1\<lparr>map_data := (map_data h1)
                                  [i := \<lparr>info_key = key,
                                         info_container = ls_prev (h_items h1)\<rparr>]\<rparr>
                   in Inr (0, h2\<lparr>h_count := h_count h2 + 1\<rparr>)))
         else if obj = 0 then
           (let h1 = h\<lparr>h_count := h_count h - 1\<rparr>
            in bind_e (fio_hash_ls_remove h1 (info_container (map_data h1 ! i))) (\<lambda>(old, h2).
                 Inr (old, h2\<lparr>map_data := (map_data h2)
                                  [i := \<lparr>info_key = key, info_container = Null\<rparr>]\<rparr>)))
         else
           bind_e (load h (info_container (map_data h ! i))) (\<lambda>n.
           bind_e (store h (info_container (map_data h ! i)) (n\<lparr>ls_obj := obj\<rparr>)) (\<lambda>h1.
           Inr (ls_obj n, h1))))
      else Inl OutOfBounds)"

definition fio_hash_insert ::
    "fio_hash_s \<Rightarrow> uintptr_t \<Rightarrow> voidp \<Rightarrow> (error + voidp \<times> fio_hash_s) option" where
  "fio_hash_insert h key obj =
     (case fio_hash_seek h key of
        Inl e \<Rightarrow> Some (Inl e)
      | Inr info \<Rightarrow>
          (if info = None \<and> obj = 0 then Some (Inr (0, h))
           else case insert_rehash_loop h key info of
                  None \<Rightarrow> None
                | Some (Inl e) \<Rightarrow> Some (Inl e)
                | Some (Inr (i, h1)) \<Rightarrow> Some (insert_at h1 key obj i)))"

subsection \<open>Iteration\<close>

text \<open>
  The visitor receives the key, the object and the user's argument; the model threads the
  argument through the calls as the visitor's state and logs the calls made. The first
  loop of \<open>fio_hash_each\<close> skips to the starting node, the second one visits.
\<close>

partial_function (option) each_skip ::
    "fio_hash_s \<Rightarrow> size_t \<Rightarrow> ptr \<Rightarrow> size_t \<Rightarrow> (error + ptr \<times> size_t) option" where
  "each_skip h start_at pos i =
     (if pos \<noteq> Items \<and> start_at > i then
        (case load h pos of
           Inl e \<Rightarrow> Some (Inl e)
         | Inr n \<Rightarrow> each_skip h start_at (ls_next n) (i + 1))
      else Some (Inr (pos, i)))"

declare each_skip.simps [code]

partial_function (option) each_visit ::
    "fio_hash_s \<Rightarrow> (uintptr_t \<Rightarrow> voidp \<Rightarrow> 'arg \<Rightarrow> int \<times> 'arg) \<Rightarrow> ptr \<Rightarrow> size_t \<Rightarrow> 'arg \<Rightarrow>
     (uintptr_t \<times> voidp) list \<Rightarrow> (error + size_t \<times> 'arg \<times> (uintptr_t \<times> voidp) list) option" where
  "each_visit h task pos i arg calls =
     (if pos \<noteq> Items then
        (case load h pos of
           Inl e \<Rightarrow> Some (Inl e)
         | Inr n \<Rightarrow>
             (case task (ls_key n) (ls_obj n) arg of
                (r, arg') \<Rightarrow>
                  if r = - 1 then Some (Inr (i + 1, arg', calls @ [(ls_key n, ls_obj n)]))
                  else each_visit h task (ls_next n) (i + 1) arg'
                         (calls @ [(ls_key n, ls_obj n)])))
      else Some (Inr (i, arg, calls)))"

declare each_visit.simps [code]

definition fio_hash_each ::
    "fio_hash_s \<Rightarrow> size_t \<Rightarrow> (uintptr_t \<Rightarrow> voidp \<Rightarrow> 'arg \<Rightarrow> int \<times> 'arg) \<Rightarrow> 'arg \<Rightarrow>
     (error + size_t \<times> 'arg \<times> (uintptr_t \<times> voidp) list) option" where
  "fio_hash_each h start_at task arg =
     (if start_at \<ge> h_count h then Some (Inr (h_count h, arg, []))
      else case each_skip h start_at (ls_next (h_items h)) 0 of
             None \<Rightarrow> None
           | Some (Inl e) \<Rightarrow> Some (Inl e)
           | Some (Inr (pos, i)) \<Rightarrow> each_visit h task pos i arg [])"

definition fio_hash_count :: "fio_hash_s \<Rightarrow> size_t" where
  "fio_hash_count h = h_count h"

definition fio_hash_capa :: "fio_hash_s \<Rightarrow> size_t" where
  "fio_hash_capa h = map_capa h"

section \<open>Observations used by the properties\<close>

subsection \<open>The probe sequence\<close>

text \<open>
  \<open>probe_index h key s\<close> is the index expression of the loop of \<open>fio_hash_seek\<close> for
  the counter value \<open>s\<close>; \<open>slot_matches\<close> is the test of the loop on a slot.
  \<open>examined\<close> lists the slots the loop reads when no test succeeds: the starting slot,
  and then the slots of the counter values \<open>0, 1, ...\<close> for the remaining
  \<open>seek_limit h - 1\<close> rounds.
\<close>

definition probe_index :: "fio_hash_s \<Rightarrow> uintptr_t \<Rightarrow> nat \<Rightarrow> nat" where
  "probe_index h key s =
     unat (((key AND h_mask h) + fio_hash_map_cuckoo_steps (of_nat s)) AND h_mask h)"

definition slot_matches :: "fio_hash_s \<Rightarrow> uintptr_t \<Rightarrow> nat \<Rightarrow> bool" where
  "slot_matches h key p =
     (info_key (map_data h ! p) = 0 \<or> info_key (map_data h ! p) = key)"

fun upto_first :: "('a \<Rightarrow> bool) \<Rightarrow> 'a list \<Rightarrow> 'a list" where
  "upto_first P [] = []"
| "upto_first P (x # xs) = (if P x then [x] else x # upto_first P xs)"

definition examined :: "fio_hash_s \<Rightarrow> uintptr_t \<Rightarrow> nat list" where
  "examined h key =
     (if 0 < seek_limit h
      then probe_index h key 0 # map (probe_index h key) [0 ..< unat (seek_limit h) - 1]
      else [])"


subsection \<open>The list as the code walks it\<close>

text \<open>
  \<open>seg h p as q\<close>: following \<open>next\<close> from \<open>p\<close> passes through the live blocks at the
  addresses \<open>as\<close>, in that order, and arrives at \<open>q\<close>. \<open>ring h as\<close>: the list of the
  table is the sentinel followed by the distinct blocks \<open>as\<close> and back to the sentinel,
  and the sentinel's \<open>prev\<close> is the last of them. \<open>prev_links h p as\<close>: the \<open>prev\<close> of
  each of the blocks \<open>as\<close> is the block before it, and \<open>p\<close> for the first. \<open>entries\<close>
  reads the keys and objects of the blocks.
\<close>

fun seg :: "fio_hash_s \<Rightarrow> ptr \<Rightarrow> nat list \<Rightarrow> ptr \<Rightarrow> bool" where
  "seg h p [] q = (p = q)"
| "seg h p (a # as) q =
     (p = Node a \<and> (case block h a of None \<Rightarrow> False | Some n \<Rightarrow> seg h (ls_next n) as q))"

definition ring :: "fio_hash_s \<Rightarrow> nat list \<Rightarrow> bool" where
  "ring h as =
     (seg h (ls_next (h_items h)) as Items \<and> distinct as \<and>
      ls_prev (h_items h) = last (Items # map Node as))"

fun prev_links :: "fio_hash_s \<Rightarrow> ptr \<Rightarrow> nat list \<Rightarrow> bool" where
  "prev_links h p [] = True"
| "prev_links h p (a # as) =
     (case block h a of None \<Rightarrow> False | Some n \<Rightarrow> ls_prev n = p \<and> prev_links h (Node a) as)"

definition key_at :: "fio_hash_s \<Rightarrow> nat \<Rightarrow> uintptr_t" where
  "key_at h a = (case block h a of None \<Rightarrow> 0 | Some n \<Rightarrow> ls_key n)"

definition obj_at :: "fio_hash_s \<Rightarrow> nat \<Rightarrow> voidp" where
  "obj_at h a = (case block h a of None \<Rightarrow> 0 | Some n \<Rightarrow> ls_obj n)"

definition entries :: "fio_hash_s \<Rightarrow> nat list \<Rightarrow> (uintptr_t \<times> voidp) list" where
  "entries h as = map (\<lambda>a. (key_at h a, obj_at h a)) as"

definition keyed :: "fio_hash_s \<Rightarrow> nat list \<Rightarrow> (nat \<times> uintptr_t) list" where
  "keyed h as = map (\<lambda>a. (a, key_at h a)) as"

subsection \<open>The bucket array of a table without removed keys\<close>

text \<open>
  \<open>shape h j\<close>: the capacity is \<open>2 ^ j\<close> with \<open>4 \<le> j \<le> 63\<close>, the mask is the capacity
  minus one and the array has that many slots. \<open>placed h aks\<close>: every slot is zero or
  holds the key and the address of one of the pairs \<open>aks\<close>, and \<open>fio_hash_seek\<close> finds
  for every pair the slot that holds it. \<open>at_home\<close>: every key sits in its starting
  slot. \<open>good_keys\<close>: no key is 0 and the keys differ in their low 63 bits.
\<close>

definition shape :: "fio_hash_s \<Rightarrow> nat \<Rightarrow> bool" where
  "shape h j =
     (4 \<le> j \<and> j \<le> 63 \<and> h_mask h = mask j \<and> map_capa h = 2 ^ j \<and>
      length (map_data h) = 2 ^ j)"

definition placed :: "fio_hash_s \<Rightarrow> (nat \<times> uintptr_t) list \<Rightarrow> bool" where
  "placed h aks =
     ((\<forall>i<length (map_data h).
         map_data h ! i = zero_slot \<or>
         (\<exists>(a, k)\<in>set aks. k \<noteq> 0 \<and> map_data h ! i = \<lparr>info_key = k, info_container = Node a\<rparr>)) \<and>
      (\<forall>(a, k)\<in>set aks. k \<noteq> 0 \<and> (\<exists>i. fio_hash_seek h k = Inr (Some i) \<and>
         map_data h ! i = \<lparr>info_key = k, info_container = Node a\<rparr>)))"

definition at_home :: "fio_hash_s \<Rightarrow> bool" where
  "at_home h =
     (\<forall>i<length (map_data h). info_key (map_data h ! i) \<noteq> 0 \<longrightarrow>
        unat (info_key (map_data h ! i) AND h_mask h) = i)"

definition settled :: "fio_hash_s \<Rightarrow> nat \<Rightarrow> (nat \<times> uintptr_t) list \<Rightarrow> bool" where
  "settled h j aks = (placed h aks \<and> (j = 63 \<longrightarrow> at_home h))"

definition good_keys :: "uintptr_t list \<Rightarrow> bool" where
  "good_keys ks = (0 \<notin> set ks \<and> distinct (map (take_bit 63) ks))"

definition table_inv :: "fio_hash_s \<Rightarrow> nat list \<Rightarrow> nat \<Rightarrow> bool" where
  "table_inv h as j =
     (shape h j \<and> ring h as \<and> good_keys (map (key_at h) as) \<and> settled h j (keyed h as))"

subsection \<open>Sequences of calls\<close>

text \<open>
  \<open>upserts\<close> runs \<open>fio_hash_insert\<close> for each pair of a list, from left to right, and
  stops at the first call that does not return a table. \<open>after ops\<close> is the table
  these calls leave when they start from \<open>fio_hash_new\<close>. In \<open>crowded\<close> seven keys
  share the starting slot 0. \<open>seek_fails h ops\<close> holds when some call of the sequence
  finds no slot at its first \<open>fio_hash_seek\<close>, the case in which \<open>fio_hash_insert\<close> with an
  object calls \<open>fio_hash_rehash\<close>. \<open>twenty\<close> maps the keys 1 to 20 to ten times the key;
  \<open>seventeen\<close> holds the keys 0, 16 and 1 to 15.
\<close>

fun upserts :: "fio_hash_s \<Rightarrow> (uintptr_t \<times> voidp) list \<Rightarrow> (error + fio_hash_s) option" where
  "upserts h [] = Some (Inr h)"
| "upserts h ((key, obj) # ops) =
     (case fio_hash_insert h key obj of
        None \<Rightarrow> None
      | Some (Inl e) \<Rightarrow> Some (Inl e)
      | Some (Inr (old, h1)) \<Rightarrow> upserts h1 ops)"

definition after :: "(uintptr_t \<times> voidp) list \<Rightarrow> fio_hash_s" where
  "after ops = (case upserts fio_hash_new ops of Some (Inr h) \<Rightarrow> h | _ \<Rightarrow> fio_hash_new)"

definition crowded :: fio_hash_s where
  "crowded = after [(16, 1), (32, 2), (48, 3), (64, 4), (80, 5), (96, 6), (112, 7)]"


fun seek_fails :: "fio_hash_s \<Rightarrow> (uintptr_t \<times> voidp) list \<Rightarrow> bool" where
  "seek_fails h [] = False"
| "seek_fails h ((key, obj) # ops) =
     (fio_hash_seek h key = Inr None \<or>
      (case fio_hash_insert h key obj of
         Some (Inr (old, h1)) \<Rightarrow> seek_fails h1 ops
       | _ \<Rightarrow> False))"

definition twenty :: "(uintptr_t \<times> voidp) list" where
  "twenty = map (\<lambda>k. (of_nat k, k * 10)) [1 ..< 21]"

definition seventeen :: "(uintptr_t \<times> voidp) list" where
  "seventeen = (0, 100) # (16, 116) # map (\<lambda>k. (of_nat k, 100 + k)) [1 ..< 16]"

subsection \<open>Visitors\<close>

text \<open>
  \<open>visits task es arg\<close> follows the description of the iteration: the visitor is called
  on the entries \<open>es\<close> in order, each call receiving the argument the previous one left,
  until the entries end or a call returns \<open>-1\<close>; the result is the number of calls made
  and the final argument. \<open>stop_at k\<close> is a visitor that adds the objects up and stops
  at the key \<open>k\<close>.
\<close>

fun visits :: "(uintptr_t \<Rightarrow> voidp \<Rightarrow> 'arg \<Rightarrow> int \<times> 'arg) \<Rightarrow> (uintptr_t \<times> voidp) list \<Rightarrow> 'arg \<Rightarrow> nat \<times> 'arg" where
  "visits task [] arg = (0, arg)"
| "visits task ((key, obj) # es) arg =
     (case task key obj arg of
        (r, arg') \<Rightarrow>
          if r = - 1 then (1, arg')
          else (case visits task es arg' of (n, arg'') \<Rightarrow> (Suc n, arg'')))"

definition stop_at :: "uintptr_t \<Rightarrow> uintptr_t \<Rightarrow> voidp \<Rightarrow> nat \<Rightarrow> int \<times> nat" where
  "stop_at k key obj arg = (if key = k then - 1 else 0, arg + obj)"

section \<open>Seeking\<close>

lemma unat_inc_below: "(i::'a::len word) < limit \<Longrightarrow> unat (i + 1) = Suc (unat i)"
  by unat_arith

lemma probe_index_bound: "unat (h_mask h) < length (map_data h) \<Longrightarrow> probe_index h key s < length (map_data h)"
proof -
  have "unat (((key AND h_mask h) + fio_hash_map_cuckoo_steps (of_nat s)) AND h_mask h) \<le> unat (h_mask h)"
    by (rule word_and_le1 [THEN word_le_nat_alt [THEN iffD1]])
  then show "unat (h_mask h) < length (map_data h) \<Longrightarrow> probe_index h key s < length (map_data h)"
    by (simp add: probe_index_def)
qed

lemma probe_index_0: "probe_index h key 0 = unat (key AND h_mask h)"
  by (simp add: probe_index_def fio_hash_map_cuckoo_steps_def and.assoc)

lemma seek_loop_find:
  assumes "unat (h_mask h) < length (map_data h)"
  shows "pos < length (map_data h) \<Longrightarrow>
    seek_loop h key pos i limit =
      Inr (if i < limit
           then find (slot_matches h key) (pos # map (probe_index h key) [unat i ..< unat limit - 1])
           else None)"
  using assms
proof (induction h key pos i limit rule: seek_loop.induct)
  case (1 h key pos i limit)
  show ?case
  proof (cases "i < limit")
    case False
    then show ?thesis by (subst seek_loop.simps) simp
  next
    case lt: True
    show ?thesis
    proof (cases "slot_matches h key pos")
      case True
      with lt 1 show ?thesis by (subst seek_loop.simps) (simp add: slot_matches_def)
    next
      case False
      let ?pos' = "unat (((key AND h_mask h) + fio_hash_map_cuckoo_steps i) AND h_mask h)"
      have p': "?pos' = probe_index h key (unat i)"
        by (simp add: probe_index_def)
      have inb: "?pos' < length (map_data h)"
        unfolding p' using "1.prems"(2) by (rule probe_index_bound)
      have nm: "\<not> (info_key (map_data h ! pos) = 0 \<or> info_key (map_data h ! pos) = key)"
        using False by (simp add: slot_matches_def)
      have IH: "seek_loop h key ?pos' (i + 1) limit =
          Inr (if i + 1 < limit
               then find (slot_matches h key) (?pos' # map (probe_index h key) [unat (i + 1) ..< unat limit - 1])
               else None)"
        using "1.IH"[OF lt "1.prems"(1) nm inb "1.prems"(2)] .
      have ui: "unat (i + 1) = Suc (unat i)"
        using lt by (rule unat_inc_below)
      have ul: "unat i < unat limit"
        using lt by (simp add: word_less_nat_alt)
      have step: "seek_loop h key pos i limit = seek_loop h key ?pos' (i + 1) limit"
        using lt "1.prems"(1) nm by (subst seek_loop.simps) simp
      show ?thesis
      proof (cases "i + 1 < limit")
        case True
        then have "Suc (unat i) < unat limit"
          using ui by (simp add: word_less_nat_alt)
        then have "[unat i ..< unat limit - 1] = unat i # [Suc (unat i) ..< unat limit - 1]"
          by (simp add: upt_conv_Cons)
        with True lt False show ?thesis
          unfolding step IH by (simp add: ui p')
      next
        case F: False
        then have "\<not> Suc (unat i) < unat limit"
          using ui by (simp add: word_less_nat_alt)
        then have "unat limit - Suc 0 \<le> unat i"
          by arith
        with F lt False show ?thesis
          unfolding step IH by simp
      qed
    qed
  qed
qed

lemma seek_probes_loop_upto:
  assumes "unat (h_mask h) < length (map_data h)"
  shows "pos < length (map_data h) \<Longrightarrow>
    seek_probes_loop h key pos i limit =
      (if i < limit
       then upto_first (slot_matches h key) (pos # map (probe_index h key) [unat i ..< unat limit - 1])
       else [])"
  using assms
proof (induction h key pos i limit rule: seek_probes_loop.induct)
  case (1 h key pos i limit)
  show ?case
  proof (cases "i < limit")
    case False
    then show ?thesis by (subst seek_probes_loop.simps) simp
  next
    case lt: True
    show ?thesis
    proof (cases "slot_matches h key pos")
      case True
      with lt 1 show ?thesis by (subst seek_probes_loop.simps) (simp add: slot_matches_def)
    next
      case False
      let ?pos' = "unat (((key AND h_mask h) + fio_hash_map_cuckoo_steps i) AND h_mask h)"
      have p': "?pos' = probe_index h key (unat i)"
        by (simp add: probe_index_def)
      have inb: "?pos' < length (map_data h)"
        unfolding p' using "1.prems"(2) by (rule probe_index_bound)
      have nm: "\<not> (info_key (map_data h ! pos) = 0 \<or> info_key (map_data h ! pos) = key)"
        using False by (simp add: slot_matches_def)
      have IH: "seek_probes_loop h key ?pos' (i + 1) limit =
          (if i + 1 < limit
           then upto_first (slot_matches h key) (?pos' # map (probe_index h key) [unat (i + 1) ..< unat limit - 1])
           else [])"
        using "1.IH"[OF lt "1.prems"(1) nm inb "1.prems"(2)] .
      have ui: "unat (i + 1) = Suc (unat i)"
        using lt by (rule unat_inc_below)
      have step: "seek_probes_loop h key pos i limit = pos # seek_probes_loop h key ?pos' (i + 1) limit"
        using lt "1.prems"(1) nm by (subst seek_probes_loop.simps) simp
      show ?thesis
      proof (cases "i + 1 < limit")
        case True
        then have "Suc (unat i) < unat limit"
          using ui by (simp add: word_less_nat_alt)
        then have "[unat i ..< unat limit - 1] = unat i # [Suc (unat i) ..< unat limit - 1]"
          by (simp add: upt_conv_Cons)
        with True lt False show ?thesis
          unfolding step IH by (simp add: ui p')
      next
        case F: False
        then have "\<not> Suc (unat i) < unat limit"
          using ui by (simp add: word_less_nat_alt)
        then have "unat limit - Suc 0 \<le> unat i"
          by arith
        with F lt False show ?thesis
          unfolding step IH by simp
      qed
    qed
  qed
qed

lemma length_upto_first: "length (upto_first P xs) \<le> length xs"
  by (induction xs) simp_all

lemma find_None_upto_first:
  "(find P xs = None) = (length (upto_first P xs) = length xs \<and> (\<forall>x\<in>set (upto_first P xs). \<not> P x))"
proof (induction xs)
  case Nil
  show ?case by simp
next
  case (Cons x xs)
  show ?case
  proof (cases "P x")
    case True
    then show ?thesis by simp
  next
    case False
    with Cons show ?thesis by simp
  qed
qed

lemma length_examined: "length (examined h key) = unat (seek_limit h)"
proof (cases "0 < seek_limit h")
  case True
  then have "0 < unat (seek_limit h)"
    by (simp add: word_less_nat_alt)
  with True show ?thesis by (simp add: examined_def)
next
  case False
  then have "seek_limit h = 0"
    by (simp add: word_neq_0_conv [symmetric])
  then show ?thesis by (simp add: examined_def)
qed

lemma unat_pow2: "j < 64 \<Longrightarrow> unat ((2::64 word) ^ j) = 2 ^ j"
proof -
  assume j: "j < 64"
  have "(2::64 word) ^ j = of_nat (2 ^ j)"
    by simp
  then have "unat ((2::64 word) ^ j) = 2 ^ j mod 2 ^ LENGTH(64)"
    by (simp only: unat_of_nat)
  moreover have "(2::nat) ^ j < 2 ^ 64"
    using j by (rule power_strict_increasing) simp
  ultimately show ?thesis by simp
qed

lemma seek_limit_min:
  assumes "j < 64" "map_capa h = 2 ^ j"
  shows "unat (seek_limit h) = min (unat (map_capa h) div 2) 256"
proof -
  have u: "unat (map_capa h) = 2 ^ j"
    using assms by (simp add: unat_pow2)
  have d: "unat (drop_bit 1 (map_capa h)) = unat (map_capa h) div 2"
    by (simp add: unat_drop_bit_eq drop_bit_eq_div unat_div)
  show ?thesis
  proof (cases "map_capa h > 256")
    case True
    then have big: "256 < (2::nat) ^ j"
      using u by (simp add: word_less_nat_alt)
    have "\<not> j \<le> 8"
    proof
      assume "j \<le> 8"
      then have "(2::nat) ^ j \<le> 2 ^ 8"
        by (rule power_increasing) simp
      with big show False by simp
    qed
    then have "9 \<le> j" by simp
    then have "(2::nat) ^ 9 \<le> 2 ^ j"
      by (rule power_increasing) simp
    then have "256 \<le> (2::nat) ^ j div 2" by simp
    with True u show ?thesis
      by (simp add: seek_limit_def FIO_HASH_MAX_MAP_SEEK_def)
  next
    case False
    then have "(2::nat) ^ j \<le> 256"
      using u by (simp add: word_less_nat_alt not_less word_le_nat_alt)
    then have "(2::nat) ^ j div 2 \<le> 256" by simp
    with False u d show ?thesis
      by (simp add: seek_limit_def FIO_HASH_MAX_MAP_SEEK_def)
  qed
qed


lemma seek_is_find:
  assumes "unat (h_mask h) < length (map_data h)"
  shows "fio_hash_seek h key = Inr (find (slot_matches h key) (examined h key))"
proof -
  have p0: "unat (key AND h_mask h) < length (map_data h)"
    using probe_index_bound[OF assms, of key 0] by (simp add: probe_index_0)
  show ?thesis
    unfolding fio_hash_seek_def seek_loop_find[OF assms p0]
    by (simp add: examined_def probe_index_0)
qed

lemma seek_probes_is_upto_first:
  assumes "unat (h_mask h) < length (map_data h)"
  shows "fio_hash_seek_probes h key = upto_first (slot_matches h key) (examined h key)"
proof -
  have p0: "unat (key AND h_mask h) < length (map_data h)"
    using probe_index_bound[OF assms, of key 0] by (simp add: probe_index_0)
  show ?thesis
    unfolding fio_hash_seek_probes_def seek_probes_loop_upto[OF assms p0]
    by (simp add: examined_def probe_index_0)
qed

lemma crowded_eq [code]:
  "crowded =
     \<lparr>h_count = 7, h_mask = 15,
      h_items = \<lparr>ls_prev = Node 6, ls_next = Node 0, ls_key = 0, ls_obj = 0\<rparr>,
      map_capa = 16,
      map_data =
        [\<lparr>info_key = 16, info_container = Node 0\<rparr>, zero_slot,
         \<lparr>info_key = 112, info_container = Node 6\<rparr>,
         \<lparr>info_key = 32, info_container = Node 1\<rparr>, zero_slot, zero_slot,
         \<lparr>info_key = 48, info_container = Node 2\<rparr>, zero_slot, zero_slot,
         \<lparr>info_key = 64, info_container = Node 3\<rparr>, zero_slot, zero_slot,
         \<lparr>info_key = 80, info_container = Node 4\<rparr>, zero_slot, zero_slot,
         \<lparr>info_key = 96, info_container = Node 5\<rparr>],
      heap =
        [Some \<lparr>ls_prev = Items, ls_next = Node 1, ls_key = 16, ls_obj = 1\<rparr>,
         Some \<lparr>ls_prev = Node 0, ls_next = Node 2, ls_key = 32, ls_obj = 2\<rparr>,
         Some \<lparr>ls_prev = Node 1, ls_next = Node 3, ls_key = 48, ls_obj = 3\<rparr>,
         Some \<lparr>ls_prev = Node 2, ls_next = Node 4, ls_key = 64, ls_obj = 4\<rparr>,
         Some \<lparr>ls_prev = Node 3, ls_next = Node 5, ls_key = 80, ls_obj = 5\<rparr>,
         Some \<lparr>ls_prev = Node 4, ls_next = Node 6, ls_key = 96, ls_obj = 6\<rparr>,
         Some \<lparr>ls_prev = Node 5, ls_next = Items, ls_key = 112, ls_obj = 7\<rparr>]\<rparr>"
  unfolding crowded_def by code_simp

text \<open>
  C2, as amended. When the mask indexes inside the bucket array, \<open>fio_hash_seek\<close> reads
  the slots of \<open>examined\<close> in that order: the starting slot \<open>key & mask\<close> twice, then
  \<open>((key & mask) + 3 * s) & mask\<close> for \<open>s = 1, 2, ...\<close> up to \<open>seek_limit - 2\<close>. It
  stops at the first of them whose key is 0 or the key sought and returns that slot, and
  returns \<open>NULL\<close> when there is none. With a limit of at least two this is the first
  matching index of the probe sequence among \<open>s = 0, ..., seek_limit - 2\<close>.
\<close>

theorem seek_examines:
  assumes "unat (h_mask h) < length (map_data h)"
  shows "fio_hash_seek h key = Inr (find (slot_matches h key) (examined h key)) \<and>
         fio_hash_seek_probes h key = upto_first (slot_matches h key) (examined h key) \<and>
         (2 \<le> unat (seek_limit h) \<longrightarrow>
            fio_hash_seek h key =
              Inr (find (slot_matches h key)
                     (map (probe_index h key) [0 ..< unat (seek_limit h) - 1])))"
proof -
  have a: "fio_hash_seek h key = Inr (find (slot_matches h key) (examined h key))"
    using assms by (rule seek_is_find)
  have b: "fio_hash_seek_probes h key = upto_first (slot_matches h key) (examined h key)"
    using assms by (rule seek_probes_is_upto_first)
  have c: "fio_hash_seek h key =
      Inr (find (slot_matches h key) (map (probe_index h key) [0 ..< unat (seek_limit h) - 1]))"
    if "2 \<le> unat (seek_limit h)"
  proof -
    from that have pos: "0 < seek_limit h"
      by (simp add: word_less_nat_alt)
    from that have "[0 ..< unat (seek_limit h) - 1] = 0 # [1 ..< unat (seek_limit h) - 1]"
      by (simp add: upt_conv_Cons)
    then have "find (slot_matches h key) (examined h key) =
        find (slot_matches h key) (map (probe_index h key) [0 ..< unat (seek_limit h) - 1])"
      using pos by (simp add: examined_def)
    with a show ?thesis by simp
  qed
  from a b c show ?thesis by blast
qed

theorem seek_examines_witness:
  "unat (h_mask crowded) < length (map_data crowded) \<and> 2 \<le> unat (seek_limit crowded) \<and>
   examined crowded 32 = [0, 0, 3, 6, 9, 12, 15, 2] \<and>
   fio_hash_seek crowded 32 = Inr (Some 3) \<and>
   fio_hash_seek_probes crowded 32 = [0, 0, 3]"
proof -
  have 1: "unat (h_mask crowded) < length (map_data crowded)"
    by code_simp
  have 2: "2 \<le> unat (seek_limit crowded)"
    by code_simp
  have 3: "examined crowded 32 = [0, 0, 3, 6, 9, 12, 15, 2]"
    by code_simp
  have 4: "find (slot_matches crowded 32) [0, 0, 3, 6, 9, 12, 15, 2] = Some 3"
    by code_simp
  have 5: "upto_first (slot_matches crowded 32) [0, 0, 3, 6, 9, 12, 15, 2] = [0, 0, 3]"
    by code_simp
  show ?thesis
    using seek_examines[OF 1, of 32] 1 2 3 4 5 by simp
qed

text \<open>
  C2 as stated fails on \<open>crowded\<close> for the key 128: the eighth index of the probe
  sequence (\<open>s = 7\<close>, below the bound of eight steps) is slot 5, which is empty, and the
  seven before it hold other keys, but \<open>fio_hash_seek\<close> returns \<open>NULL\<close>: it has read slot 0
  twice and never reads slot 5.
\<close>

theorem seek_misses_last_probe:
  "seek_limit crowded = 8 \<and>
   map (probe_index crowded 128) [0 ..< 8] = [0, 3, 6, 9, 12, 15, 2, 5] \<and>
   map (slot_matches crowded 128) [0, 3, 6, 9, 12, 15, 2, 5] =
     [False, False, False, False, False, False, False, True] \<and>
   fio_hash_seek crowded 128 = Inr None \<and>
   fio_hash_seek_probes crowded 128 = [0, 0, 3, 6, 9, 12, 15, 2]"
  by code_simp

text \<open>
  C3. When the mask indexes inside the bucket array and the capacity is a power of two,
  \<open>fio_hash_seek\<close> reads at most \<open>min (capacity / 2) 256\<close> slots, and it returns \<open>NULL\<close>
  exactly when it has read that many slots and none of them was empty or held the key.
\<close>

theorem seek_bounded:
  assumes "unat (h_mask h) < length (map_data h)" and "\<exists>j<64. map_capa h = 2 ^ j"
  shows "(\<exists>r. fio_hash_seek h key = Inr r) \<and>
     length (fio_hash_seek_probes h key) \<le> min (unat (map_capa h) div 2) 256 \<and>
     (fio_hash_seek h key = Inr None \<longleftrightarrow>
        length (fio_hash_seek_probes h key) = min (unat (map_capa h) div 2) 256 \<and>
        (\<forall>p\<in>set (fio_hash_seek_probes h key). \<not> slot_matches h key p))"
proof -
  from assms(2) obtain j where j: "j < 64" "map_capa h = 2 ^ j" by blast
  have lim: "length (examined h key) = min (unat (map_capa h) div 2) 256"
    using seek_limit_min[OF j] by (simp add: length_examined)
  have s: "fio_hash_seek h key = Inr (find (slot_matches h key) (examined h key))"
    and p: "fio_hash_seek_probes h key = upto_first (slot_matches h key) (examined h key)"
    using seek_is_find[OF assms(1)] seek_probes_is_upto_first[OF assms(1)] by simp_all
  have a: "\<exists>r. fio_hash_seek h key = Inr r"
    using s by simp
  have b: "length (fio_hash_seek_probes h key) \<le> min (unat (map_capa h) div 2) 256"
    unfolding p lim [symmetric] by (rule length_upto_first)
  have c: "fio_hash_seek h key = Inr None \<longleftrightarrow>
        length (fio_hash_seek_probes h key) = min (unat (map_capa h) div 2) 256 \<and>
        (\<forall>p\<in>set (fio_hash_seek_probes h key). \<not> slot_matches h key p)"
    unfolding s p lim [symmetric] by (simp add: find_None_upto_first)
  from a b c show ?thesis by blast
qed


theorem seek_bounded_witness:
  "unat (h_mask crowded) < length (map_data crowded) \<and> (\<exists>j<64. map_capa crowded = 2 ^ j) \<and>
   fio_hash_seek crowded 128 = Inr None \<and> length (fio_hash_seek_probes crowded 128) = 8 \<and>
   fio_hash_seek crowded 32 = Inr (Some 3) \<and> length (fio_hash_seek_probes crowded 32) = 3"
proof -
  have 1: "unat (h_mask crowded) < length (map_data crowded)"
    by code_simp
  have c: "map_capa crowded = 2 ^ 4"
    by code_simp
  then have 2: "\<exists>j<64. map_capa crowded = 2 ^ j"
    by (intro exI[of _ 4]) simp
  have 3: "fio_hash_seek crowded 128 = Inr None" "length (fio_hash_seek_probes crowded 128) = 8"
    "fio_hash_seek crowded 32 = Inr (Some 3)" "length (fio_hash_seek_probes crowded 32) = 3"
    by code_simp+
  show ?thesis
    using seek_bounded[OF 1 2, of 128] 1 2 3 by simp
qed


section \<open>Tables built by insertions only\<close>

lemma seg_append:
  "seg h p (xs @ ys) q = (\<exists>m. seg h p xs m \<and> seg h m ys q)"
  by (induction xs arbitrary: p) (auto split: option.splits)

lemma seg_frame:
  "(\<And>a. a \<in> set xs \<Longrightarrow> block h' a = block h a) \<Longrightarrow> seg h' p xs q = seg h p xs q"
  by (induction xs arbitrary: p) (auto split: option.splits)

lemma seg_live: "seg h p xs q \<Longrightarrow> a \<in> set xs \<Longrightarrow> \<exists>n. block h a = Some n"
  by (induction xs arbitrary: p) (auto split: option.splits)

lemma block_live_bound: "block h a = Some n \<Longrightarrow> a < length (heap h)"
  by (simp add: block_def split: if_splits)

lemma unshift_empty:
  assumes "ring h []"
  shows "fio_hash_ls_unshift h Items obj key =
     Inr (h\<lparr>heap := heap h @ [Some \<lparr>ls_prev = Items, ls_next = Items, ls_key = key, ls_obj = obj\<rparr>],
           h_items := (h_items h)\<lparr>ls_prev := Node (length (heap h)), ls_next := Node (length (heap h))\<rparr>\<rparr>)"
proof -
  from assms have "ls_next (h_items h) = Items" "ls_prev (h_items h) = Items"
    by (simp_all add: ring_def)
  then show ?thesis
    by (simp add: fio_hash_ls_unshift_def fio_hash_ls_push_def load_def store_def Let_def)
qed

lemma unshift_snoc:
  assumes "ring h (bs @ [t])"
  shows "\<exists>nt. block h t = Some nt \<and> fio_hash_ls_unshift h Items obj key =
     Inr (h\<lparr>heap := (heap h @ [Some \<lparr>ls_prev = Node t, ls_next = Items, ls_key = key, ls_obj = obj\<rparr>])
                      [t := Some (nt\<lparr>ls_next := Node (length (heap h))\<rparr>)],
           h_items := (h_items h)\<lparr>ls_prev := Node (length (heap h))\<rparr>\<rparr>)"
proof -
  from assms have s: "seg h (ls_next (h_items h)) (bs @ [t]) Items"
    and p: "ls_prev (h_items h) = Node t"
    by (simp_all add: ring_def)
  from s obtain m where "seg h m [t] Items"
    unfolding seg_append by blast
  then obtain nt where nt: "block h t = Some nt" "ls_next nt = Items"
    by (auto split: option.splits)
  from nt(1) have lt: "t < length (heap h)"
    by (rule block_live_bound)
  from nt(1) lt have ht: "heap h ! t = Some nt"
    by (simp add: block_def)
  have "fio_hash_ls_unshift h Items obj key =
     Inr (h\<lparr>heap := (heap h @ [Some \<lparr>ls_prev = Node t, ls_next = Items, ls_key = key, ls_obj = obj\<rparr>])
                      [t := Some (nt\<lparr>ls_next := Node (length (heap h))\<rparr>)],
           h_items := (h_items h)\<lparr>ls_prev := Node (length (heap h))\<rparr>\<rparr>)"
    using p nt lt ht
    by (simp add: fio_hash_ls_unshift_def fio_hash_ls_push_def load_def store_def Let_def
        block_def nth_append)
  with nt(1) show ?thesis by blast
qed

lemma ring_live: "ring h as \<Longrightarrow> a \<in> set as \<Longrightarrow> \<exists>n. block h a = Some n"
  unfolding ring_def using seg_live by blast

lemma ring_bound: "ring h as \<Longrightarrow> a \<in> set as \<Longrightarrow> a < length (heap h)"
  using ring_live block_live_bound by blast

lemma unshift_ring:
  assumes "ring h as"
  shows "\<exists>h'. fio_hash_ls_unshift h Items obj key = Inr h' \<and>
     ring h' (as @ [length (heap h)]) \<and>
     entries h' (as @ [length (heap h)]) = entries h as @ [(key, obj)] \<and>
     ls_prev (h_items h') = Node (length (heap h)) \<and>
     h_mask h' = h_mask h \<and> map_capa h' = map_capa h \<and> map_data h' = map_data h \<and>
     h_count h' = h_count h \<and> length (heap h') = Suc (length (heap h))"
proof (cases as rule: rev_cases)
  case Nil
  let ?h' = "h\<lparr>heap := heap h @ [Some \<lparr>ls_prev = Items, ls_next = Items, ls_key = key, ls_obj = obj\<rparr>],
           h_items := (h_items h)\<lparr>ls_prev := Node (length (heap h)), ls_next := Node (length (heap h))\<rparr>\<rparr>"
  have u: "fio_hash_ls_unshift h Items obj key = Inr ?h'"
    using assms unfolding Nil by (rule unshift_empty)
  have r: "ring ?h' ([] @ [length (heap h)])"
    by (simp add: ring_def block_def)
  have e: "entries ?h' ([] @ [length (heap h)]) = entries h [] @ [(key, obj)]"
    by (simp add: entries_def key_at_def obj_at_def block_def)
  show ?thesis
    unfolding Nil using u r e by simp
next
  case (snoc bs t)
  let ?a = "length (heap h)"
  from unshift_snoc[OF assms[unfolded snoc], of obj key]
  obtain nt where nt: "block h t = Some nt"
    and u: "fio_hash_ls_unshift h Items obj key =
     Inr (h\<lparr>heap := (heap h @ [Some \<lparr>ls_prev = Node t, ls_next = Items, ls_key = key, ls_obj = obj\<rparr>])
                      [t := Some (nt\<lparr>ls_next := Node ?a\<rparr>)],
           h_items := (h_items h)\<lparr>ls_prev := Node ?a\<rparr>\<rparr>)"
    by blast
  let ?h' = "h\<lparr>heap := (heap h @ [Some \<lparr>ls_prev = Node t, ls_next = Items, ls_key = key, ls_obj = obj\<rparr>])
                      [t := Some (nt\<lparr>ls_next := Node ?a\<rparr>)],
           h_items := (h_items h)\<lparr>ls_prev := Node ?a\<rparr>\<rparr>"
  have lt: "t < ?a"
    using nt by (rule block_live_bound)
  have bt: "block ?h' t = Some (nt\<lparr>ls_next := Node ?a\<rparr>)"
    using lt by (simp add: block_def)
  have ba: "block ?h' ?a = Some \<lparr>ls_prev = Node t, ls_next = Items, ls_key = key, ls_obj = obj\<rparr>"
    using lt by (simp add: block_def nth_append)
  have bo: "block ?h' a = block h a" if "a \<noteq> t" "a < ?a" for a
    using that by (simp add: block_def nth_append)
  from assms have s: "seg h (ls_next (h_items h)) (bs @ [t]) Items"
    and d: "distinct (bs @ [t])"
    by (simp_all add: ring_def snoc)
  have bsb: "a \<noteq> t \<and> a < ?a" if "a \<in> set bs" for a
    using that d ring_bound[OF assms, of a] snoc by auto
  from s have s1: "seg h (ls_next (h_items h)) bs (Node t)"
    unfolding seg_append by (auto split: option.splits)
  have "seg ?h' (ls_next (h_items h)) bs (Node t) = seg h (ls_next (h_items h)) bs (Node t)"
    by (rule seg_frame) (use bsb bo in blast)
  with s1 have s2: "seg ?h' (ls_next (h_items ?h')) bs (Node t)"
    by simp
  have s3: "seg ?h' (Node t) [t, ?a] Items"
    using bt ba by simp
  have "\<exists>m. seg ?h' (ls_next (h_items ?h')) bs m \<and> seg ?h' m [t, ?a] Items"
    using s2 s3 by blast
  then have "seg ?h' (ls_next (h_items ?h')) (bs @ [t, ?a]) Items"
    by (simp only: seg_append)
  then have s4: "seg ?h' (ls_next (h_items ?h')) ((bs @ [t]) @ [?a]) Items"
    by simp
  have d': "distinct ((bs @ [t]) @ [?a])"
    using d bsb lt by auto
  have r: "ring ?h' ((bs @ [t]) @ [?a])"
    unfolding ring_def using s4 d' by simp
  have eb: "map (\<lambda>a. (key_at ?h' a, obj_at ?h' a)) bs = map (\<lambda>a. (key_at h a, obj_at h a)) bs"
    by (rule map_cong) (use bsb bo in \<open>simp_all add: key_at_def obj_at_def\<close>)
  have et: "(key_at ?h' t, obj_at ?h' t) = (key_at h t, obj_at h t)"
    using bt nt by (simp add: key_at_def obj_at_def)
  have ea: "(key_at ?h' ?a, obj_at ?h' ?a) = (key, obj)"
    using ba by (simp add: key_at_def obj_at_def)
  have e: "entries ?h' ((bs @ [t]) @ [?a]) = entries h (bs @ [t]) @ [(key, obj)]"
    unfolding entries_def using eb et ea by simp
  show ?thesis
    unfolding snoc using u r e by simp
qed

lemma unat_mask64: "j \<le> 63 \<Longrightarrow> unat (mask j :: 64 word) = 2 ^ j - 1"
proof -
  assume j: "j \<le> 63"
  then have u: "unat ((2::64 word) ^ j) = 2 ^ j"
    by (simp add: unat_pow2)
  then have "(2::64 word) ^ j \<noteq> 0"
    by (metis unat_0 power_not_zero zero_neq_numeral)
  then have "unat ((2::64 word) ^ j - 1) = unat ((2::64 word) ^ j) - 1"
    by (rule unat_minus_one)
  with u show ?thesis
    by (simp add: mask_eq_decr_exp)
qed

lemma shape_inb: "shape h j \<Longrightarrow> unat (h_mask h) < length (map_data h)"
  by (simp add: shape_def unat_mask64)

lemma shape_limit: "shape h j \<Longrightarrow> 0 < seek_limit h"
proof -
  assume s: "shape h j"
  then have j: "j < 64" "map_capa h = 2 ^ j" "4 \<le> j"
    by (simp_all add: shape_def)
  have u: "unat (map_capa h) = 2 ^ j"
    using j by (simp add: unat_pow2)
  have "(2::nat) ^ 4 \<le> 2 ^ j"
    using j(3) by (rule power_increasing) simp
  then have "8 \<le> unat (map_capa h) div 2"
    using u by simp
  then have "0 < unat (seek_limit h)"
    using seek_limit_min[OF j(1,2)] by simp
  then show ?thesis
    by (simp add: word_less_nat_alt)
qed

lemma seek_Some:
  assumes "unat (h_mask h) < length (map_data h)" "fio_hash_seek h k = Inr (Some i)"
  shows "i < length (map_data h) \<and> slot_matches h k i"
proof -
  from assms have f: "find (slot_matches h k) (examined h k) = Some i"
    by (simp add: seek_is_find)
  then have m: "slot_matches h k i" and "i \<in> set (examined h k)"
    by (auto simp: find_Some_iff)
  then have "i < length (map_data h)"
    using probe_index_bound[OF assms(1)] by (auto simp: examined_def split: if_splits)
  with m show ?thesis by simp
qed

lemma find_change_other:
  "find P xs = Some y \<Longrightarrow> (\<And>x. x \<noteq> z \<Longrightarrow> P' x = P x) \<Longrightarrow> P z \<Longrightarrow> y \<noteq> z \<Longrightarrow>
   find P' xs = Some y"
proof (induction xs)
  case Nil
  then show ?case by simp
next
  case (Cons x xs)
  show ?case
  proof (cases "P x")
    case True
    with Cons.prems have "y = x" by simp
    with Cons.prems True show ?thesis by simp
  next
    case False
    with Cons.prems have "x \<noteq> z" by blast
    with Cons False show ?thesis by simp
  qed
qed

lemma find_change_self:
  "find P xs = Some y \<Longrightarrow> (\<And>x. x \<noteq> y \<Longrightarrow> P' x = P x) \<Longrightarrow> P' y \<Longrightarrow> find P' xs = Some y"
proof (induction xs)
  case Nil
  then show ?case by simp
next
  case (Cons x xs)
  show ?case
  proof (cases "x = y")
    case True
    with Cons.prems show ?thesis by simp
  next
    case False
    with Cons.prems have "\<not> P x" by auto
    with Cons False show ?thesis by simp
  qed
qed

lemma examined_cong:
  "h_mask h' = h_mask h \<Longrightarrow> map_capa h' = map_capa h \<Longrightarrow> examined h' k = examined h k"
  by (simp add: examined_def seek_limit_def probe_index_def [abs_def])

lemma seek_cong:
  assumes "h_mask h' = h_mask h" "map_capa h' = map_capa h" "map_data h' = map_data h"
    and "unat (h_mask h) < length (map_data h)"
  shows "fio_hash_seek h' k = fio_hash_seek h k"
proof -
  have m: "slot_matches h' k = slot_matches h k"
    using assms(3) by (simp add: slot_matches_def [abs_def])
  have e: "examined h' k = examined h k"
    using assms(1,2) by (rule examined_cong)
  have inb: "unat (h_mask h') < length (map_data h')"
    using assms by simp
  show ?thesis
    unfolding seek_is_find[OF inb] seek_is_find[OF assms(4)] m e ..
qed

lemma placed_cong:
  assumes "h_mask h' = h_mask h" "map_capa h' = map_capa h" "map_data h' = map_data h"
    and "unat (h_mask h) < length (map_data h)"
  shows "placed h' aks = placed h aks"
proof -
  have "fio_hash_seek h' = fio_hash_seek h"
    using seek_cong[OF assms] by (rule ext)
  then show ?thesis
    unfolding placed_def assms(3) by simp
qed

lemma placed_place:
  assumes inb: "unat (h_mask h) < length (map_data h)"
    and pl: "placed h aks" and k0: "k \<noteq> 0" and fresh: "k \<notin> snd ` set aks"
    and sk: "fio_hash_seek h k = Inr (Some i)"
  shows "map_data h ! i = zero_slot"
    and "placed (h\<lparr>map_data := (map_data h)[i := \<lparr>info_key = k, info_container = Node a\<rparr>]\<rparr>)
           (aks @ [(a, k)])"
proof -
  let ?s = "\<lparr>info_key = k, info_container = Node a\<rparr>"
  let ?h' = "h\<lparr>map_data := (map_data h)[i := ?s]\<rparr>"
  from seek_Some[OF inb sk] have il: "i < length (map_data h)" and mi: "slot_matches h k i"
    by simp_all
  from pl il have "map_data h ! i = zero_slot \<or>
      (\<exists>(a', k')\<in>set aks. k' \<noteq> 0 \<and> map_data h ! i = \<lparr>info_key = k', info_container = Node a'\<rparr>)"
    unfolding placed_def by blast
  then show z: "map_data h ! i = zero_slot"
  proof
    assume "map_data h ! i = zero_slot"
    then show ?thesis .
  next
    assume "\<exists>(a', k')\<in>set aks. k' \<noteq> 0 \<and> map_data h ! i = \<lparr>info_key = k', info_container = Node a'\<rparr>"
    then obtain a' k' where ak: "(a', k') \<in> set aks" "k' \<noteq> 0"
      "map_data h ! i = \<lparr>info_key = k', info_container = Node a'\<rparr>"
      by blast
    with mi have "k' = k"
      by (simp add: slot_matches_def)
    with ak(1) have "k \<in> snd ` set aks"
      by force
    with fresh show ?thesis by contradiction
  qed
  have inb': "unat (h_mask ?h') < length (map_data ?h')"
    using inb by simp
  have ex: "examined ?h' k' = examined h k'" for k'
    by (rule examined_cong) simp_all
  have sk': "fio_hash_seek ?h' k' = Inr (find (slot_matches ?h' k') (examined h k'))" for k'
    unfolding seek_is_find[OF inb'] ex ..
  have mz: "slot_matches h k' i" for k'
    using z by (simp add: slot_matches_def zero_slot_def)
  have other: "slot_matches ?h' k' x = slot_matches h k' x" if "x \<noteq> i" for x k'
    using that by (simp add: slot_matches_def)
  have self: "slot_matches ?h' k i"
    using il by (simp add: slot_matches_def)
  have p1: "map_data ?h' ! i' = zero_slot \<or>
      (\<exists>(a', k')\<in>set (aks @ [(a, k)]). k' \<noteq> 0 \<and>
         map_data ?h' ! i' = \<lparr>info_key = k', info_container = Node a'\<rparr>)"
    if "i' < length (map_data ?h')" for i'
  proof (cases "i' = i")
    case True
    with il k0 show ?thesis by simp
  next
    case False
    from that have "i' < length (map_data h)" by simp
    with pl have "map_data h ! i' = zero_slot \<or>
      (\<exists>(a', k')\<in>set aks. k' \<noteq> 0 \<and> map_data h ! i' = \<lparr>info_key = k', info_container = Node a'\<rparr>)"
      unfolding placed_def by blast
    with False show ?thesis by auto
  qed
  have p2: "k' \<noteq> 0 \<and> (\<exists>i'. fio_hash_seek ?h' k' = Inr (Some i') \<and>
         map_data ?h' ! i' = \<lparr>info_key = k', info_container = Node a'\<rparr>)"
    if "(a', k') \<in> set (aks @ [(a, k)])" for a' k'
  proof (cases "(a', k') \<in> set aks")
    case True
    with pl obtain i' where i': "k' \<noteq> 0" "fio_hash_seek h k' = Inr (Some i')"
      "map_data h ! i' = \<lparr>info_key = k', info_container = Node a'\<rparr>"
      unfolding placed_def by blast
    from i'(1,3) z have ne: "i' \<noteq> i"
      by (auto simp: zero_slot_def)
    from i'(2) have "find (slot_matches h k') (examined h k') = Some i'"
      by (simp add: seek_is_find[OF inb])
    then have "find (slot_matches ?h' k') (examined h k') = Some i'"
      by (rule find_change_other) (use other mz ne in blast)+
    then have "fio_hash_seek ?h' k' = Inr (Some i')"
      by (simp add: sk')
    moreover have "map_data ?h' ! i' = \<lparr>info_key = k', info_container = Node a'\<rparr>"
      using ne i'(3) by simp
    ultimately show ?thesis using i'(1) by blast
  next
    case False
    with that have eq: "a' = a" "k' = k" by simp_all
    from sk have "find (slot_matches h k) (examined h k) = Some i"
      by (simp add: seek_is_find[OF inb])
    then have "find (slot_matches ?h' k) (examined h k) = Some i"
      by (rule find_change_self) (use other self in blast)+
    then have "fio_hash_seek ?h' k = Inr (Some i)"
      by (simp add: sk')
    moreover have "map_data ?h' ! i = ?s"
      using il by simp
    ultimately show ?thesis using k0 eq by blast
  qed
  show "placed ?h' (aks @ [(a, k)])"
    unfolding placed_def using p1 p2 by blast
qed

lemma seek_home:
  assumes sh: "shape h j" and pl: "placed h aks" and ah: "at_home h"
    and diff: "\<And>a' k'. (a', k') \<in> set aks \<Longrightarrow> k' AND h_mask h \<noteq> k AND h_mask h"
  shows "fio_hash_seek h k = Inr (Some (unat (k AND h_mask h)))"
proof -
  let ?i = "unat (k AND h_mask h)"
  have inb: "unat (h_mask h) < length (map_data h)"
    using sh by (rule shape_inb)
  have il: "?i < length (map_data h)"
    using probe_index_bound[OF inb, of k 0] by (simp add: probe_index_0)
  from pl il have "map_data h ! ?i = zero_slot \<or>
      (\<exists>(a', k')\<in>set aks. k' \<noteq> 0 \<and> map_data h ! ?i = \<lparr>info_key = k', info_container = Node a'\<rparr>)"
    unfolding placed_def by blast
  then have m: "slot_matches h k ?i"
  proof
    assume "map_data h ! ?i = zero_slot"
    then show ?thesis by (simp add: slot_matches_def zero_slot_def)
  next
    assume "\<exists>(a', k')\<in>set aks. k' \<noteq> 0 \<and> map_data h ! ?i = \<lparr>info_key = k', info_container = Node a'\<rparr>"
    then obtain a' k' where ak: "(a', k') \<in> set aks" "k' \<noteq> 0"
      "map_data h ! ?i = \<lparr>info_key = k', info_container = Node a'\<rparr>"
      by blast
    from ak(2,3) have "info_key (map_data h ! ?i) \<noteq> 0" "info_key (map_data h ! ?i) = k'"
      by simp_all
    with ah[unfolded at_home_def, rule_format, OF il] have "unat (k' AND h_mask h) = ?i"
      by simp
    then have "k' AND h_mask h = k AND h_mask h"
      by (simp add: word_unat_eq_iff)
    with diff[OF ak(1)] show ?thesis by contradiction
  qed
  have "examined h k = ?i # map (probe_index h k) [0 ..< unat (seek_limit h) - 1]"
    using shape_limit[OF sh] by (simp add: examined_def probe_index_0)
  with m show ?thesis
    by (simp add: seek_is_find[OF inb])
qed

lemma at_home_place:
  "at_home h \<Longrightarrow> i = unat (k AND h_mask h) \<Longrightarrow>
   at_home (h\<lparr>map_data := (map_data h)[i := \<lparr>info_key = k, info_container = p\<rparr>]\<rparr>)"
proof -
  assume ah: "at_home h" and i: "i = unat (k AND h_mask h)"
  let ?d = "(map_data h)[i := \<lparr>info_key = k, info_container = p\<rparr>]"
  have "unat (info_key (?d ! x) AND h_mask h) = x"
    if "x < length (map_data h)" "info_key (?d ! x) \<noteq> 0" for x
  proof (cases "x = i")
    case True
    with that(1) i show ?thesis by simp
  next
    case False
    then have "?d ! x = map_data h ! x" by simp
    with that ah[unfolded at_home_def, rule_format, of x] show ?thesis by simp
  qed
  then show ?thesis
    by (simp add: at_home_def)
qed

lemma settled_home:
  assumes sh: "shape h 63" and st: "settled h 63 aks"
    and fresh: "take_bit 63 k \<notin> take_bit 63 ` snd ` set aks"
  shows "fio_hash_seek h k = Inr (Some (unat (k AND h_mask h)))"
proof -
  from sh have m: "h_mask h = mask 63"
    by (simp add: shape_def)
  from st have pl: "placed h aks" and ah: "at_home h"
    by (simp_all add: settled_def)
  have "k' AND h_mask h \<noteq> k AND h_mask h" if "(a', k') \<in> set aks" for a' k'
  proof
    assume "k' AND h_mask h = k AND h_mask h"
    then have "take_bit 63 k' = take_bit 63 k"
      by (simp add: m take_bit_eq_mask)
    moreover from that have "take_bit 63 k' \<in> take_bit 63 ` snd ` set aks"
      by force
    ultimately show False using fresh by simp
  qed
  with sh pl ah show ?thesis by (rule seek_home)
qed

lemma settled_place:
  assumes sh: "shape h j" and st: "settled h j aks" and k0: "k \<noteq> 0"
    and fresh: "take_bit 63 k \<notin> take_bit 63 ` snd ` set aks"
    and sk: "fio_hash_seek h k = Inr (Some i)"
  shows "map_data h ! i = zero_slot"
    and "settled (h\<lparr>map_data := (map_data h)[i := \<lparr>info_key = k, info_container = Node a\<rparr>]\<rparr>) j
           (aks @ [(a, k)])"
proof -
  have inb: "unat (h_mask h) < length (map_data h)"
    using sh by (rule shape_inb)
  from st have pl: "placed h aks"
    by (simp add: settled_def)
  from fresh have fr: "k \<notin> snd ` set aks"
    by blast
  show "map_data h ! i = zero_slot"
    using inb pl k0 fr sk by (rule placed_place(1))
  have p: "placed (h\<lparr>map_data := (map_data h)[i := \<lparr>info_key = k, info_container = Node a\<rparr>]\<rparr>)
           (aks @ [(a, k)])"
    using inb pl k0 fr sk by (rule placed_place(2))
  have "at_home (h\<lparr>map_data := (map_data h)[i := \<lparr>info_key = k, info_container = Node a\<rparr>]\<rparr>)"
    if j: "j = 63"
  proof -
    from st j have ah: "at_home h"
      by (simp add: settled_def)
    have "fio_hash_seek h k = Inr (Some (unat (k AND h_mask h)))"
      using sh st fresh unfolding j by (rule settled_home)
    with sk have "i = unat (k AND h_mask h)" by simp
    with ah show ?thesis by (rule at_home_place)
  qed
  with p show "settled (h\<lparr>map_data := (map_data h)[i := \<lparr>info_key = k, info_container = Node a\<rparr>]\<rparr>) j
           (aks @ [(a, k)])"
    by (simp add: settled_def)
qed

lemma block_heap_eq: "heap h' = heap h \<Longrightarrow> block h' a = block h a"
  by (simp add: block_def)

lemma key_at_heap_eq: "heap h' = heap h \<Longrightarrow> key_at h' = key_at h"
  by (rule ext) (simp add: key_at_def block_def)

lemma keyed_heap_eq: "heap h' = heap h \<Longrightarrow> keyed h' as = keyed h as"
  using key_at_heap_eq[of h' h] by (simp add: keyed_def)

lemma seg_heap_eq: "heap h' = heap h \<Longrightarrow> seg h' p xs q = seg h p xs q"
  by (rule seg_frame) (simp add: block_def)

lemma ring_heap_eq: "heap h' = heap h \<Longrightarrow> h_items h' = h_items h \<Longrightarrow> ring h' as = ring h as"
  using seg_heap_eq[of h' h] by (simp add: ring_def)

lemma snd_keyed: "snd ` set (keyed h as) = key_at h ` set as"
  by (force simp: keyed_def)

lemma good_keys_fresh:
  assumes "good_keys (map (key_at h) (done @ a # rest))"
  shows "key_at h a \<noteq> 0"
    and "take_bit 63 (key_at h a) \<notin> take_bit 63 ` snd ` set (keyed h done)"
proof -
  from assms show "key_at h a \<noteq> 0"
    by (auto simp: good_keys_def)
  from assms have "take_bit 63 (key_at h a) \<notin> set (map (take_bit 63) (map (key_at h) done))"
    by (simp add: good_keys_def)
  then show "take_bit 63 (key_at h a) \<notin> take_bit 63 ` snd ` set (keyed h done)"
    by (simp add: snd_keyed image_image)
qed

lemma seek_no_error:
  "shape h j \<Longrightarrow> \<exists>r. fio_hash_seek h k = Inr r"
proof -
  assume "shape h j"
  then have "unat (h_mask h) < length (map_data h)"
    by (rule shape_inb)
  then show ?thesis
    by (simp add: seek_is_find)
qed

lemma shape_update:
  "shape h j \<Longrightarrow> shape (h\<lparr>map_data := (map_data h)[i := s]\<rparr>) j"
  by (simp add: shape_def)

lemma rehash_walk_total:
  "shape h j \<Longrightarrow> seg h pos todo Items \<Longrightarrow> settled h j (keyed h done) \<Longrightarrow>
   good_keys (map (key_at h) (done @ todo)) \<Longrightarrow>
   \<exists>ok h'. rehash_walk h pos = Some (Inr (ok, h')) \<and> heap h' = heap h \<and>
     h_items h' = h_items h \<and> h_count h' = h_count h \<and> shape h' j \<and>
     (if ok then settled h' j (keyed h (done @ todo)) else j < 63)"
proof (induction todo arbitrary: h pos "done")
  case Nil
  then have "pos = Items" by simp
  then have "rehash_walk h pos = Some (Inr (True, h))"
    by (simp add: rehash_walk.simps)
  with Nil show ?case
    by (intro exI[of _ True] exI[of _ h]) simp
next
  case (Cons a rest)
  from Cons.prems(2) obtain n where pos: "pos = Node a" and n: "block h a = Some n"
    and sg: "seg h (ls_next n) rest Items"
    by (auto split: option.splits)
  have ld: "load h pos = Inr n"
    using pos n by (simp add: load_def)
  have k: "key_at h a = ls_key n"
    using n by (simp add: key_at_def)
  have k0: "ls_key n \<noteq> 0"
    and fresh: "take_bit 63 (ls_key n) \<notin> take_bit 63 ` snd ` set (keyed h done)"
    using good_keys_fresh[OF Cons.prems(4)] by (simp_all add: k)
  from seek_no_error[OF Cons.prems(1)] obtain r where r: "fio_hash_seek h (ls_key n) = Inr r"
    by blast
  show ?case
  proof (cases r)
    case None
    have w: "rehash_walk h pos = Some (Inr (False, h))"
      using pos ld r None by (subst rehash_walk.simps) simp
    have "j \<noteq> 63"
    proof
      assume j: "j = 63"
      from settled_home[OF Cons.prems(1)[unfolded j] Cons.prems(3)[unfolded j] fresh] r None
      show False by simp
    qed
    moreover from Cons.prems(1) have "j \<le> 63"
      by (simp add: shape_def)
    ultimately have "j < 63" by simp
    with w Cons.prems(1) show ?thesis
      by (intro exI[of _ False] exI[of _ h]) simp
  next
    case (Some i)
    let ?h1 = "h\<lparr>map_data := (map_data h)[i := \<lparr>info_key = ls_key n, info_container = pos\<rparr>]\<rparr>"
    have w: "rehash_walk h pos = rehash_walk ?h1 (ls_next n)"
      using pos ld r Some by (subst rehash_walk.simps) simp
    have hp: "heap ?h1 = heap h" by simp
    have s1: "shape ?h1 j"
      using Cons.prems(1) by (rule shape_update)
    have s2: "seg ?h1 (ls_next n) rest Items"
      using sg by (simp add: seg_heap_eq[OF hp])
    have "settled ?h1 j (keyed h done @ [(a, ls_key n)])"
      unfolding pos using Cons.prems(1,3) k0 fresh r[unfolded Some] by (rule settled_place(2))
    then have s3: "settled ?h1 j (keyed ?h1 (done @ [a]))"
      by (simp add: keyed_def key_at_heap_eq[OF hp] k)
    have s4: "good_keys (map (key_at ?h1) ((done @ [a]) @ rest))"
      using Cons.prems(4) by (simp add: key_at_heap_eq[OF hp])
    from Cons.IH[OF s1 s2 s3 s4] obtain ok h' where
      "rehash_walk ?h1 (ls_next n) = Some (Inr (ok, h'))" "heap h' = heap ?h1"
      "h_items h' = h_items ?h1" "h_count h' = h_count ?h1" "shape h' j"
      "if ok then settled h' j (keyed ?h1 ((done @ [a]) @ rest)) else j < 63"
      by blast
    moreover have "keyed ?h1 (done @ a # rest) = keyed h (done @ a # rest)"
      by (rule keyed_heap_eq) simp
    ultimately show ?thesis
      unfolding w by (intro exI[of _ ok] exI[of _ h']) (cases ok; simp)
  qed
qed

lemma grow_mask: "push_bit 1 (mask j) OR 1 = (mask (Suc j) :: 64 word)"
  by (simp add: mask_Suc_double push_bit_eq_mult or.commute mult.commute)

lemma shape_grow:
  assumes "shape h j" "j < 63"
  shows "shape (rehash_grow h) (Suc j)"
proof -
  from assms have m: "h_mask h = mask j" and j4: "4 \<le> j"
    by (simp_all add: shape_def)
  have c: "(mask (Suc j) :: 64 word) + 1 = 2 ^ Suc j"
    by (simp only: inc_mask_eq_exp)
  have u: "unat ((2::64 word) ^ Suc j) = 2 ^ Suc j"
    using assms(2) by (intro unat_pow2) simp
  show ?thesis
    unfolding shape_def rehash_grow_def Let_def m grow_mask
    using j4 assms(2) c u by simp
qed

lemma settled_grow:
  "settled (rehash_grow h) j' []"
proof -
  have z: "map_data (rehash_grow h) ! i = zero_slot" if "i < length (map_data (rehash_grow h))" for i
    using that by (simp add: rehash_grow_def Let_def)
  then have "placed (rehash_grow h) []"
    by (simp add: placed_def)
  moreover have "at_home (rehash_grow h)"
    using z by (simp add: at_home_def zero_slot_def)
  ultimately show ?thesis
    by (simp add: settled_def)
qed

lemma rehash_total:
  "shape h j \<Longrightarrow> j < 63 \<Longrightarrow> ring h as \<Longrightarrow> good_keys (map (key_at h) as) \<Longrightarrow>
   \<exists>h' j'. fio_hash_rehash h = Some (Inr h') \<and> j < j' \<and> shape h' j' \<and>
     settled h' j' (keyed h as) \<and> heap h' = heap h \<and> h_items h' = h_items h \<and>
     h_count h' = h_count h"
proof (induction "63 - j" arbitrary: h j rule: less_induct)
  case less
  let ?g = "rehash_grow h"
  have hg: "heap ?g = heap h" "h_items ?g = h_items h" "h_count ?g = h_count h"
    by (simp_all add: rehash_grow_def Let_def)
  have s1: "shape ?g (Suc j)"
    using less.prems(1,2) by (rule shape_grow)
  have s2: "seg ?g (ls_next (h_items ?g)) as Items"
    using less.prems(3) by (simp add: ring_def hg seg_heap_eq[OF hg(1)])
  have s3: "settled ?g (Suc j) (keyed ?g [])"
    by (simp add: keyed_def settled_grow)
  have s4: "good_keys (map (key_at ?g) ([] @ as))"
    using less.prems(4) by (simp add: key_at_heap_eq[OF hg(1)])
  from rehash_walk_total[OF s1 s2 s3 s4] obtain ok h2 where
    w: "rehash_walk ?g (ls_next (h_items ?g)) = Some (Inr (ok, h2))"
    and h2: "heap h2 = heap ?g" "h_items h2 = h_items ?g" "h_count h2 = h_count ?g"
      "shape h2 (Suc j)"
    and fin: "if ok then settled h2 (Suc j) (keyed ?g ([] @ as)) else Suc j < 63"
    by blast
  have kg: "keyed ?g as = keyed h as"
    by (rule keyed_heap_eq) (rule hg(1))
  show ?case
  proof (cases ok)
    case True
    have "fio_hash_rehash h = Some (Inr h2)"
      using w True by (subst fio_hash_rehash.simps) simp
    moreover have "settled h2 (Suc j) (keyed h as)"
      using fin True kg by simp
    ultimately show ?thesis
      using h2 hg by (intro exI[of _ h2] exI[of _ "Suc j"]) simp
  next
    case False
    have r: "fio_hash_rehash h = fio_hash_rehash h2"
      using w False by (subst fio_hash_rehash.simps) simp
    from fin False have lt: "Suc j < 63" by simp
    have hh: "heap h2 = heap h" "h_items h2 = h_items h"
      using h2 hg by simp_all
    have r2: "ring h2 as"
      using less.prems(3) by (simp add: ring_heap_eq[OF hh])
    have g2: "good_keys (map (key_at h2) as)"
      using less.prems(4) by (simp add: key_at_heap_eq[OF hh(1)])
    have "63 - Suc j < 63 - j"
      using less.prems(2) by simp
    from less.hyps[OF this h2(4) lt r2 g2] obtain h' j' where
      "fio_hash_rehash h2 = Some (Inr h')" "Suc j < j'" "shape h' j'"
      "settled h' j' (keyed h2 as)" "heap h' = heap h2" "h_items h' = h_items h2"
      "h_count h' = h_count h2"
      by blast
    then show ?thesis
      unfolding r using hh h2(3) hg(3) keyed_heap_eq[OF hh(1), of as]
      by (intro exI[of _ h'] exI[of _ j']) simp
  qed
qed

lemma insert_rehash_loop_total:
  "shape h j \<Longrightarrow> ring h as \<Longrightarrow> good_keys (map (key_at h) as) \<Longrightarrow>
   settled h j (keyed h as) \<Longrightarrow>
   take_bit 63 k \<notin> take_bit 63 ` key_at h ` set as \<Longrightarrow>
   fio_hash_seek h k = Inr info \<Longrightarrow>
   \<exists>i h' j'. insert_rehash_loop h k info = Some (Inr (i, h')) \<and> j \<le> j' \<and> shape h' j' \<and>
     settled h' j' (keyed h as) \<and> fio_hash_seek h' k = Inr (Some i) \<and>
     heap h' = heap h \<and> h_items h' = h_items h \<and> h_count h' = h_count h \<and>
     (info \<noteq> None \<longrightarrow> h' = h)"
proof (induction "63 - j" arbitrary: h j info rule: less_induct)
  case less
  show ?case
  proof (cases info)
    case (Some i)
    have "insert_rehash_loop h k info = Some (Inr (i, h))"
      unfolding Some by (subst insert_rehash_loop.simps) simp
    with less.prems Some show ?thesis
      by (intro exI[of _ i] exI[of _ h] exI[of _ j]) simp
  next
    case None
    have fresh: "take_bit 63 k \<notin> take_bit 63 ` snd ` set (keyed h as)"
      using less.prems(5) by (simp add: snd_keyed)
    have "j \<noteq> 63"
    proof
      assume j: "j = 63"
      from settled_home[OF less.prems(1)[unfolded j] less.prems(4)[unfolded j] fresh]
        less.prems(6) None
      show False by simp
    qed
    moreover from less.prems(1) have "j \<le> 63"
      by (simp add: shape_def)
    ultimately have lt: "j < 63" by simp
    from rehash_total[OF less.prems(1) lt less.prems(2,3)] obtain h1 j1 where
      r: "fio_hash_rehash h = Some (Inr h1)" and j1: "j < j1" and s1: "shape h1 j1"
      and st1: "settled h1 j1 (keyed h as)"
      and hh: "heap h1 = heap h" "h_items h1 = h_items h" "h_count h1 = h_count h"
      by blast
    from seek_no_error[OF s1] obtain info1 where i1: "fio_hash_seek h1 k = Inr info1"
      by blast
    have l: "insert_rehash_loop h k info = insert_rehash_loop h1 k info1"
      unfolding None using r i1 by (subst insert_rehash_loop.simps) simp
    from s1 have "j1 \<le> 63"
      by (simp add: shape_def)
    with j1 have m: "63 - j1 < 63 - j"
      by arith
    have p2: "ring h1 as"
      using less.prems(2) by (simp add: ring_heap_eq[OF hh(1,2)])
    have p3: "good_keys (map (key_at h1) as)"
      using less.prems(3) by (simp add: key_at_heap_eq[OF hh(1)])
    have p4: "settled h1 j1 (keyed h1 as)"
      using st1 by (simp add: keyed_heap_eq[OF hh(1)])
    have p5: "take_bit 63 k \<notin> take_bit 63 ` key_at h1 ` set as"
      using less.prems(5) by (simp add: key_at_heap_eq[OF hh(1)])
    from less.hyps[OF m s1 p2 p3 p4 p5 i1] obtain i h' j' where
      "insert_rehash_loop h1 k info1 = Some (Inr (i, h'))" "j1 \<le> j'" "shape h' j'"
      "settled h' j' (keyed h1 as)" "fio_hash_seek h' k = Inr (Some i)"
      "heap h' = heap h1" "h_items h' = h_items h1" "h_count h' = h_count h1"
      by blast
    then show ?thesis
      unfolding l using hh j1 None keyed_heap_eq[OF hh(1), of as]
      by (intro exI[of _ i] exI[of _ h'] exI[of _ j']) simp
  qed
qed

lemma shape_cong:
  "h_mask h' = h_mask h \<Longrightarrow> map_capa h' = map_capa h \<Longrightarrow> map_data h' = map_data h \<Longrightarrow>
   shape h' j = shape h j"
  by (simp add: shape_def)

lemma settled_cong:
  assumes "h_mask h' = h_mask h" "map_capa h' = map_capa h" "map_data h' = map_data h"
    and "unat (h_mask h) < length (map_data h)"
  shows "settled h' j aks = settled h j aks"
  unfolding settled_def placed_cong[OF assms] at_home_def assms(1,3) ..

lemma entries_heap_eq: "heap h' = heap h \<Longrightarrow> entries h' as = entries h as"
  using key_at_heap_eq[of h' h] by (simp add: entries_def obj_at_def [abs_def] block_def)

lemma keys_of_entries: "map fst (entries h as) = map (key_at h) as"
  by (simp add: entries_def comp_def)

lemma keyed_of_keys: "keyed h as = zip as (map (key_at h) as)"
  by (induction as) (simp_all add: keyed_def)

lemma good_keys_snoc:
  "good_keys ks \<Longrightarrow> k \<noteq> 0 \<Longrightarrow> take_bit 63 k \<notin> take_bit 63 ` set ks \<Longrightarrow> good_keys (ks @ [k])"
  by (auto simp: good_keys_def)

lemma insert_fresh:
  assumes inv: "table_inv h as j" and k0: "k \<noteq> 0" and v0: "v \<noteq> 0"
    and fresh: "take_bit 63 k \<notin> take_bit 63 ` key_at h ` set as"
  shows "\<exists>h' j'. fio_hash_insert h k v = Some (Inr (0, h')) \<and> j \<le> j' \<and>
     table_inv h' (as @ [length (heap h)]) j' \<and>
     entries h' (as @ [length (heap h)]) = entries h as @ [(k, v)] \<and>
     (fio_hash_seek h k \<noteq> Inr None \<longrightarrow> map_capa h' = map_capa h)"
proof -
  from inv have sh: "shape h j" and rg: "ring h as"
    and gk: "good_keys (map (key_at h) as)" and st: "settled h j (keyed h as)"
    by (simp_all add: table_inv_def)
  from seek_no_error[OF sh] obtain info where info: "fio_hash_seek h k = Inr info"
    by blast
  from insert_rehash_loop_total[OF sh rg gk st fresh info] obtain i h1 j1 where
    lp: "insert_rehash_loop h k info = Some (Inr (i, h1))" and jj: "j \<le> j1"
    and sh1: "shape h1 j1" and st1: "settled h1 j1 (keyed h as)"
    and sk1: "fio_hash_seek h1 k = Inr (Some i)"
    and hh: "heap h1 = heap h" "h_items h1 = h_items h" "h_count h1 = h_count h"
    and same: "info \<noteq> None \<longrightarrow> h1 = h"
    by blast
  have ins: "fio_hash_insert h k v = Some (insert_at h1 k v i)"
    using info lp v0 by (simp add: fio_hash_insert_def)
  have inb1: "unat (h_mask h1) < length (map_data h1)"
    using sh1 by (rule shape_inb)
  have il: "i < length (map_data h1)"
    using seek_Some[OF inb1 sk1] by simp
  have fr: "take_bit 63 k \<notin> take_bit 63 ` snd ` set (keyed h as)"
    using fresh by (simp add: snd_keyed)
  have z: "map_data h1 ! i = zero_slot"
    using sh1 st1 k0 fr sk1 by (rule settled_place(1))
  have rg1: "ring h1 as"
    by (subst ring_heap_eq[OF hh(1,2)]) (rule rg)
  let ?a = "length (heap h)"
  from unshift_ring[OF rg1, of v k] obtain h2 where
    un: "fio_hash_ls_unshift h1 Items v k = Inr h2"
    and rg2: "ring h2 (as @ [?a])"
    and en2: "entries h2 (as @ [?a]) = entries h1 as @ [(k, v)]"
    and pv2: "ls_prev (h_items h2) = Node ?a"
    and mp2: "h_mask h2 = h_mask h1" "map_capa h2 = map_capa h1" "map_data h2 = map_data h1"
    by (auto simp: hh(1))
  let ?h3 = "h2\<lparr>map_data := (map_data h2)[i := \<lparr>info_key = k, info_container = Node ?a\<rparr>]\<rparr>"
  let ?h4 = "?h3\<lparr>h_count := h_count ?h3 + 1\<rparr>"
  have at: "insert_at h1 k v i = Inr (0, ?h4)"
    using il z v0 un pv2 by (simp add: insert_at_def zero_slot_def Let_def)
  have sh2: "shape h2 j1"
    by (subst shape_cong[OF mp2]) (rule sh1)
  have st2: "settled h2 j1 (keyed h as)"
    by (subst settled_cong[OF mp2 inb1]) (rule st1)
  have sk2: "fio_hash_seek h2 k = Inr (Some i)"
    by (subst seek_cong[OF mp2 inb1]) (rule sk1)
  have st3: "settled ?h3 j1 (keyed h as @ [(?a, k)])"
    using sh2 st2 k0 fr sk2 by (rule settled_place(2))
  have sh3: "shape ?h3 j1"
    using sh2 by (rule shape_update)
  have inb3: "unat (h_mask ?h3) < length (map_data ?h3)"
    using sh3 by (rule shape_inb)
  have sh4: "shape ?h4 j1"
    using sh3 by (simp add: shape_def)
  have st4: "settled ?h4 j1 (keyed h as @ [(?a, k)])"
    using st3 settled_cong[OF _ _ _ inb3, of ?h4 j1 "keyed h as @ [(?a, k)]"] by simp
  have hp4: "heap ?h4 = heap h2" "h_items ?h4 = h_items h2"
    by simp_all
  have rg4: "ring ?h4 (as @ [?a])"
    by (subst ring_heap_eq[OF hp4]) (rule rg2)
  have en4: "entries ?h4 (as @ [?a]) = entries h as @ [(k, v)]"
    using en2 entries_heap_eq[OF hp4(1), of "as @ [?a]"] entries_heap_eq[OF hh(1), of as]
    by simp
  from en4 have "map fst (entries ?h4 (as @ [?a])) = map fst (entries h as @ [(k, v)])"
    by simp
  then have ks4: "map (key_at ?h4) (as @ [?a]) = map (key_at h) as @ [k]"
    by (simp only: keys_of_entries map_append) simp
  have gk4: "good_keys (map (key_at ?h4) (as @ [?a]))"
    unfolding ks4 using gk k0 by (rule good_keys_snoc) (use fresh in simp)
  have "keyed ?h4 (as @ [?a]) = zip (as @ [?a]) (map (key_at h) as @ [k])"
    unfolding keyed_of_keys ks4 ..
  then have kd4: "keyed ?h4 (as @ [?a]) = keyed h as @ [(?a, k)]"
    by (simp add: keyed_of_keys)
  have inv4: "table_inv ?h4 (as @ [?a]) j1"
    unfolding table_inv_def kd4 using sh4 rg4 gk4 st4 by simp
  have cp: "map_capa ?h4 = map_capa h" if "fio_hash_seek h k \<noteq> Inr None"
  proof -
    from that info have "info \<noteq> None" by auto
    with same have "h1 = h" by simp
    then show ?thesis using mp2 by simp
  qed
  show ?thesis
    using ins at jj inv4 en4 cp by (intro exI[of _ ?h4] exI[of _ j1]) simp
qed

lemma upserts_fresh:
  "table_inv h as j \<Longrightarrow> good_keys (map (key_at h) as @ map fst kvs) \<Longrightarrow>
   0 \<notin> snd ` set kvs \<Longrightarrow>
   \<exists>h' as' j'. upserts h kvs = Some (Inr h') \<and> table_inv h' as' j' \<and>
     entries h' as' = entries h as @ kvs \<and>
     (\<not> seek_fails h kvs \<longrightarrow> map_capa h' = map_capa h)"
proof (induction kvs arbitrary: h as j)
  case Nil
  then show ?case
    by (intro exI[of _ h] exI[of _ as] exI[of _ j]) simp
next
  case (Cons kv rest)
  obtain k v where kv: "kv = (k, v)"
    by (cases kv)
  from Cons.prems(2) have k0: "k \<noteq> 0"
    and fresh: "take_bit 63 k \<notin> take_bit 63 ` key_at h ` set as"
    by (auto simp: good_keys_def kv)
  from Cons.prems(3) have v0: "v \<noteq> 0" and r0: "0 \<notin> snd ` set rest"
    by (auto simp: kv)
  let ?a = "length (heap h)"
  from insert_fresh[OF Cons.prems(1) k0 v0 fresh] obtain h1 j1 where
    ins: "fio_hash_insert h k v = Some (Inr (0, h1))"
    and inv1: "table_inv h1 (as @ [?a]) j1"
    and en1: "entries h1 (as @ [?a]) = entries h as @ [(k, v)]"
    and cp1: "fio_hash_seek h k \<noteq> Inr None \<longrightarrow> map_capa h1 = map_capa h"
    by blast
  from en1 have "map fst (entries h1 (as @ [?a])) = map fst (entries h as @ [(k, v)])"
    by simp
  then have ks1: "map (key_at h1) (as @ [?a]) = map (key_at h) as @ [k]"
    by (simp only: keys_of_entries map_append) simp
  have g1: "good_keys (map (key_at h1) (as @ [?a]) @ map fst rest)"
    unfolding ks1 using Cons.prems(2) by (simp add: kv)
  from Cons.IH[OF inv1 g1 r0] obtain h' as' j' where
    up: "upserts h1 rest = Some (Inr h')" and inv': "table_inv h' as' j'"
    and en': "entries h' as' = entries h1 (as @ [?a]) @ rest"
    and cp': "\<not> seek_fails h1 rest \<longrightarrow> map_capa h' = map_capa h1"
    by blast
  have u: "upserts h (kv # rest) = Some (Inr h')"
    using ins up by (simp add: kv)
  have e: "entries h' as' = entries h as @ kv # rest"
    using en' en1 by (simp add: kv)
  have c: "map_capa h' = map_capa h" if "\<not> seek_fails h (kv # rest)"
    using that ins cp1 cp' by (simp add: kv)
  from u inv' e c show ?case
    by (intro exI[of _ h'] exI[of _ as'] exI[of _ j']) simp
qed

lemma table_inv_new: "table_inv fio_hash_new [] 4"
proof -
  have m: "(15 :: 64 word) = mask 4"
    by (simp add: mask_eq_decr_exp)
  have s: "shape fio_hash_new 4"
    unfolding shape_def fio_hash_new_def HASH_INITIAL_CAPACITY_def
    by (simp add: m [symmetric])
  have r: "ring fio_hash_new []"
    by (simp add: ring_def fio_hash_new_def)
  have p: "placed fio_hash_new []"
    by (simp add: placed_def fio_hash_new_def HASH_INITIAL_CAPACITY_def)
  show ?thesis
    unfolding table_inv_def using s r p
    by (simp add: good_keys_def keyed_def settled_def)
qed

lemma find_entry:
  assumes inv: "table_inv h as j" and e: "(k, v) \<in> set (entries h as)"
  shows "fio_hash_find h k = Inr v"
proof -
  from e obtain a where a: "a \<in> set as" "key_at h a = k" "obj_at h a = v"
    by (auto simp: entries_def)
  from inv have rg: "ring h as" and st: "settled h j (keyed h as)"
    by (simp_all add: table_inv_def)
  from a(1,2) have "(a, k) \<in> set (keyed h as)"
    by (auto simp: keyed_def)
  with st obtain i where i: "fio_hash_seek h k = Inr (Some i)"
    "map_data h ! i = \<lparr>info_key = k, info_container = Node a\<rparr>"
    unfolding settled_def placed_def by blast
  from ring_live[OF rg a(1)] obtain n where n: "block h a = Some n"
    by blast
  with a(3) have "ls_obj n = v"
    by (simp add: obj_at_def)
  with i n show ?thesis
    by (simp add: fio_hash_find_def load_def)
qed

lemma table_inv_capacity:
  assumes inv: "table_inv h as j"
  shows "length as \<le> unat (map_capa h)"
proof -
  from inv have sh: "shape h j" and rg: "ring h as" and st: "settled h j (keyed h as)"
    by (simp_all add: table_inv_def)
  have inb: "unat (h_mask h) < length (map_data h)"
    using sh by (rule shape_inb)
  from sh have "j < 64" "map_capa h = 2 ^ j" "length (map_data h) = 2 ^ j"
    by (simp_all add: shape_def)
  then have len: "unat (map_capa h) = length (map_data h)"
    by (simp add: unat_pow2)
  let ?g = "\<lambda>i. info_container (map_data h ! i)"
  have "Node a \<in> ?g ` {..<length (map_data h)}" if "a \<in> set as" for a
  proof -
    from that have "(a, key_at h a) \<in> set (keyed h as)"
      by (auto simp: keyed_def)
    with st obtain i where i: "fio_hash_seek h (key_at h a) = Inr (Some i)"
      "map_data h ! i = \<lparr>info_key = key_at h a, info_container = Node a\<rparr>"
      unfolding settled_def placed_def by blast
    from seek_Some[OF inb i(1)] have "i < length (map_data h)"
      by simp
    with i(2) show ?thesis
      by force
  qed
  then have sub: "Node ` set as \<subseteq> ?g ` {..<length (map_data h)}"
    by blast
  from rg have "distinct as"
    by (simp add: ring_def)
  then have "length as = card (set as)"
    by (simp add: distinct_card)
  also have "\<dots> = card (Node ` set as)"
    by (simp add: card_image inj_on_def)
  also have "\<dots> \<le> card (?g ` {..<length (map_data h)})"
    using sub by (intro card_mono) simp_all
  also have "\<dots> \<le> card {..<length (map_data h)}"
    by (rule card_image_le) simp
  finally show ?thesis
    by (simp add: len)
qed

lemma upserts_new:
  assumes "0 \<notin> fst ` set kvs" "0 \<notin> snd ` set kvs"
    and "distinct (map (\<lambda>(k, v). take_bit 63 k) kvs)"
  shows "\<exists>h as j. upserts fio_hash_new kvs = Some (Inr h) \<and> table_inv h as j \<and>
     entries h as = kvs \<and> (\<not> seek_fails fio_hash_new kvs \<longrightarrow> map_capa h = 16)"
proof -
  have "map (take_bit 63) (map fst kvs) = map (\<lambda>(k, v). take_bit 63 k) kvs"
    by (induction kvs) auto
  with assms(3) have "distinct (map (take_bit 63) (map fst kvs))"
    by (simp only:)
  with assms(1) have g: "good_keys (map (key_at fio_hash_new) [] @ map fst kvs)"
    by (simp add: good_keys_def)
  from upserts_fresh[OF table_inv_new g assms(2)] show ?thesis
    by (simp add: entries_def fio_hash_new_def HASH_INITIAL_CAPACITY_def)
qed

text \<open>
  C1, as amended. For every sequence of insertions of objects other than \<open>NULL\<close> under
  keys that are not 0 and differ pairwise in their low 63 bits, into a new table, every
  call returns and \<open>fio_hash_find\<close> then returns for every key the object inserted with
  it.
\<close>

theorem insert_then_find:
  assumes "0 \<notin> fst ` set kvs" "0 \<notin> snd ` set kvs"
    and "distinct (map (\<lambda>(k, v). take_bit 63 k) kvs)"
  shows "\<exists>h. upserts fio_hash_new kvs = Some (Inr h) \<and>
     (\<forall>(k, v)\<in>set kvs. fio_hash_find h k = Inr v)"
proof -
  from upserts_new[OF assms] obtain h as j where
    u: "upserts fio_hash_new kvs = Some (Inr h)" and inv: "table_inv h as j"
    and e: "entries h as = kvs"
    by blast
  have "fio_hash_find h k = Inr v" if "(k, v) \<in> set kvs" for k v
    using inv that unfolding e [symmetric] by (rule find_entry)
  with u show ?thesis by blast
qed

theorem insert_then_find_witness:
  "0 \<notin> fst ` set [(1, 10), (17, 20), (33 :: uintptr_t, 30 :: voidp)] \<and>
   0 \<notin> snd ` set [(1, 10), (17, 20), (33 :: uintptr_t, 30 :: voidp)] \<and>
   distinct (map (\<lambda>(k, v). take_bit 63 k) [(1, 10), (17, 20), (33 :: uintptr_t, 30 :: voidp)]) \<and>
   (\<exists>h. upserts fio_hash_new [(1, 10), (17, 20), (33, 30)] = Some (Inr h) \<and>
      fio_hash_find h 1 = Inr 10 \<and> fio_hash_find h 17 = Inr 20 \<and> fio_hash_find h 33 = Inr 30)"
proof -
  have 1: "0 \<notin> fst ` set [(1, 10), (17, 20), (33 :: uintptr_t, 30 :: voidp)]"
    by simp
  have 2: "0 \<notin> snd ` set [(1, 10), (17, 20), (33 :: uintptr_t, 30 :: voidp)]"
    by simp
  have 3: "distinct (map (\<lambda>(k, v). take_bit 63 k) [(1, 10), (17, 20), (33 :: uintptr_t, 30 :: voidp)])"
    by code_simp
  show ?thesis
    using insert_then_find[OF 1 2 3] 1 2 3 by simp
qed

text \<open>
  C1 as stated fails for the key 0: the slot of a live key 0 looks empty, so the insertion
  of key 16 takes it for its own and replaces the object of key 0.
\<close>

theorem key_zero_overwritten:
  "upserts fio_hash_new [(0, 10), (16, 20)] = Some (Inr (after [(0, 10), (16, 20)])) \<and>
   fio_hash_find (after [(0, 10), (16, 20)]) 0 = Inr 20 \<and>
   fio_hash_find (after [(0, 10), (16, 20)]) 0 \<noteq> Inr 10 \<and>
   fio_hash_find (after [(0, 10), (16, 20)]) 16 = Inr 20"
  by code_simp

text \<open>
  C6, as amended. For more than 16 insertions of objects other than \<open>NULL\<close> under keys
  that are not 0 and differ pairwise in their low 63 bits, into a new table: every call
  returns, at least one of them finds no slot and rehashes, the capacity at the end is at
  least the number of keys, and every key is found with its object.
\<close>

theorem growth:
  assumes "0 \<notin> fst ` set kvs" "0 \<notin> snd ` set kvs"
    and "distinct (map (\<lambda>(k, v). take_bit 63 k) kvs)"
    and "unat HASH_INITIAL_CAPACITY < length kvs"
  shows "\<exists>h. upserts fio_hash_new kvs = Some (Inr h) \<and> seek_fails fio_hash_new kvs \<and>
     length kvs \<le> unat (fio_hash_capa h) \<and>
     (\<forall>(k, v)\<in>set kvs. fio_hash_find h k = Inr v)"
proof -
  from upserts_new[OF assms(1-3)] obtain h as j where
    u: "upserts fio_hash_new kvs = Some (Inr h)" and inv: "table_inv h as j"
    and e: "entries h as = kvs"
    and c: "\<not> seek_fails fio_hash_new kvs \<longrightarrow> map_capa h = 16"
    by blast
  have f: "fio_hash_find h k = Inr v" if "(k, v) \<in> set kvs" for k v
    using inv that unfolding e [symmetric] by (rule find_entry)
  have "length as = length kvs"
    using e by (simp add: entries_def [symmetric] flip: length_map [of "\<lambda>a. (key_at h a, obj_at h a)" as])
  with table_inv_capacity[OF inv] have n: "length kvs \<le> unat (map_capa h)"
    by simp
  have s: "seek_fails fio_hash_new kvs"
  proof (rule ccontr)
    assume "\<not> seek_fails fio_hash_new kvs"
    with c have "map_capa h = 16" by simp
    with n assms(4) show False
      by (simp add: HASH_INITIAL_CAPACITY_def)
  qed
  from u s n f show ?thesis
    by (auto simp: fio_hash_capa_def)
qed

theorem growth_witness:
  "0 \<notin> fst ` set twenty \<and> 0 \<notin> snd ` set twenty \<and>
   distinct (map (\<lambda>(k, v). take_bit 63 k) twenty) \<and>
   unat HASH_INITIAL_CAPACITY < length twenty \<and>
   (\<exists>h. upserts fio_hash_new twenty = Some (Inr h) \<and> seek_fails fio_hash_new twenty \<and>
      length twenty \<le> unat (fio_hash_capa h) \<and> fio_hash_find h 17 = Inr 170)"
proof -
  have 1: "0 \<notin> fst ` set twenty"
    by code_simp
  have 2: "0 \<notin> snd ` set twenty"
    by code_simp
  have 3: "distinct (map (\<lambda>(k, v). take_bit 63 k) twenty)"
    by code_simp
  have 4: "unat HASH_INITIAL_CAPACITY < length twenty"
    by code_simp
  have 5: "(17, 170) \<in> set twenty"
    by code_simp
  from growth[OF 1 2 3 4] obtain h where h: "upserts fio_hash_new twenty = Some (Inr h)"
    "seek_fails fio_hash_new twenty" "length twenty \<le> unat (fio_hash_capa h)"
    "\<forall>(k, v)\<in>set twenty. fio_hash_find h k = Inr v"
    by blast
  from h(4) 5 have "fio_hash_find h 17 = Inr 170"
    by blast
  with h(1-3) 1 2 3 4 show ?thesis
    by blast
qed

text \<open>
  C6 as stated fails for seventeen distinct keys with 0 and 16 among them: key 16 takes
  the slot of key 0, no call rehashes, the capacity stays 16 and key 0 is found with the
  object of key 16.
\<close>

theorem no_growth_with_key_zero:
  "length seventeen = 17 \<and> distinct (map fst seventeen) \<and> 0 \<notin> snd ` set seventeen \<and>
   upserts fio_hash_new seventeen = Some (Inr (after seventeen)) \<and>
   \<not> seek_fails fio_hash_new seventeen \<and>
   fio_hash_capa (after seventeen) = 16 \<and>
   \<not> length seventeen \<le> unat (fio_hash_capa (after seventeen)) \<and>
   fio_hash_find (after seventeen) 0 = Inr 116"
  by code_simp

section \<open>Inserting and removing\<close>

text \<open>
  C10. When \<open>fio_hash_seek\<close> finds no slot and the object is \<open>NULL\<close>, \<open>fio_hash_insert\<close>
  returns \<open>NULL\<close> at once and the table, the list and the store are unchanged; in
  particular no rehash takes place.
\<close>

theorem delete_absent_without_slot:
  "fio_hash_seek h key = Inr None \<Longrightarrow> fio_hash_insert h key 0 = Some (Inr (0, h))"
  by (simp add: fio_hash_insert_def)


theorem delete_absent_without_slot_witness:
  "fio_hash_seek crowded 128 = Inr None \<and> fio_hash_insert crowded 128 0 = Some (Inr (0, crowded))"
proof -
  have 1: "fio_hash_seek crowded 128 = Inr None"
    by code_simp
  show ?thesis
    using delete_absent_without_slot[OF 1] 1 by simp
qed


text \<open>
  C5. After two insertions and the removal of the first key, the iteration from position 0
  reads the freed node: the only live entry is not visited.
\<close>

theorem each_reads_freed_node:
  "fio_hash_each (after [(1, 10), (2, 20), (1, 0)]) 0 (\<lambda>key obj (arg :: nat). (0, arg)) 0 =
     Some (Inl Dangling)"
  by code_simp

lemma unat_and_15: "unat ((k::64 word) AND 15) < 16"
proof -
  have "unat (k AND 15) \<le> unat (15 :: 64 word)"
    by (rule word_and_le1 [THEN word_le_nat_alt [THEN iffD1]])
  then show ?thesis by simp
qed

text \<open>
  C7. On a new table, inserting a key, removing it and inserting it again ends in a read
  of the freed node, whatever the key and the objects: \<open>fio_hash_ls_unshift\<close> starts from
  \<open>hash->items.prev\<close>, which still is the removed node.
\<close>

theorem reinsert_reads_freed_node:
  "v1 \<noteq> 0 \<Longrightarrow> v2 \<noteq> 0 \<Longrightarrow>
   upserts fio_hash_new [(k, v1), (k, 0), (k, v2)] = Some (Inl Dangling)"
  using unat_and_15[of k]
  by (simp add: fio_hash_insert_def fio_hash_new_def fio_hash_seek_def seek_limit_def
      HASH_INITIAL_CAPACITY_def FIO_HASH_MAX_MAP_SEEK_def insert_rehash_loop.simps
      insert_at_def fio_hash_ls_unshift_def fio_hash_ls_push_def fio_hash_ls_remove_def
      free_def load_def store_def zero_slot_def Let_def block_def)

theorem reinsert_reads_freed_node_witness:
  "(1::nat) \<noteq> 0 \<and> (2::nat) \<noteq> 0 \<and>
   upserts fio_hash_new [(5, 1), (5, 0), (5, 2)] = Some (Inl Dangling)"
  using reinsert_reads_freed_node[of 1 2 5] by simp

section \<open>The key 0\<close>


lemma seek_loop_Some:
  "seek_loop h k pos c lim = Inr (Some i) \<Longrightarrow> i < length (map_data h) \<and> slot_matches h k i"
proof (induction h k pos c lim rule: seek_loop.induct)
  case (1 h key pos i' limit)
  show ?case
  proof (cases "i' < limit")
    case False
    with "1.prems" show ?thesis
      by (subst (asm) seek_loop.simps) simp
  next
    case lt: True
    show ?thesis
    proof (cases "pos < length (map_data h)")
      case False
      with lt "1.prems" show ?thesis
        by (subst (asm) seek_loop.simps) simp
    next
      case inb: True
      show ?thesis
      proof (cases "info_key (map_data h ! pos) = 0 \<or> info_key (map_data h ! pos) = key")
        case True
        with lt inb "1.prems" have "i = pos"
          by (subst (asm) seek_loop.simps) simp
        with True inb show ?thesis
          by (simp add: slot_matches_def)
      next
        case False
        with lt inb "1.prems" have
          "seek_loop h key
             (unat (((key AND h_mask h) + fio_hash_map_cuckoo_steps i') AND h_mask h))
             (i' + 1) limit = Inr (Some i)"
          by (subst (asm) seek_loop.simps) simp
        with "1.IH"[OF lt inb False] show ?thesis .
      qed
    qed
  qed
qed

lemma seek_Some_any:
  "fio_hash_seek h k = Inr (Some i) \<Longrightarrow> i < length (map_data h) \<and> slot_matches h k i"
  unfolding fio_hash_seek_def by (rule seek_loop_Some)








section \<open>Removing a key\<close>

lemma prev_links_append:
  "prev_links h p (bs @ a # cs) \<Longrightarrow>
   \<exists>n. block h a = Some n \<and> ls_prev n = last (p # map Node bs) \<and> prev_links h (Node a) cs"
  by (induction bs arbitrary: p) (auto split: option.splits)

lemma store_same: "load h p = Inr n \<Longrightarrow> store h p n = Inr h"
proof (cases p)
  case Null
  assume "load h p = Inr n"
  with Null show ?thesis by (simp add: load_def)
next
  case Items
  assume "load h p = Inr n"
  with Items show ?thesis by (simp add: load_def store_def)
next
  case (Node a)
  assume "load h p = Inr n"
  with Node have b: "block h a = Some n"
    by (simp add: load_def split: option.splits)
  then have "a < length (heap h)" "heap h ! a = Some n"
    by (simp_all add: block_def split: if_splits)
  then have "(heap h)[a := Some n] = heap h"
    by (simp add: list_update_same_conv)
  with Node b show ?thesis
    by (simp add: store_def)
qed

lemma neighbours:
  assumes rg: "ring h as" and bk: "prev_links h Items as" and a: "a \<in> set as"
  shows "\<exists>n p q. block h a = Some n \<and> load h (ls_prev n) = Inr p \<and> ls_next p = Node a \<and>
           load h (ls_next n) = Inr q \<and> ls_prev q = Node a"
proof -
  from a obtain bs cs where as: "as = bs @ a # cs"
    by (auto simp: in_set_conv_decomp)
  from rg have sg: "seg h (ls_next (h_items h)) (bs @ a # cs) Items"
    and lst: "ls_prev (h_items h) = last (Items # map Node (bs @ a # cs))"
    by (simp_all add: ring_def as)
  from sg obtain m where s1: "seg h (ls_next (h_items h)) bs m" and s2: "seg h m (a # cs) Items"
    unfolding seg_append by blast
  from s2 obtain n where m: "m = Node a" and n: "block h a = Some n"
    and s3: "seg h (ls_next n) cs Items"
    by (auto split: option.splits)
  from prev_links_append[OF bk[unfolded as]] n have pv: "ls_prev n = last (Items # map Node bs)"
    and b2: "prev_links h (Node a) cs"
    by simp_all
  have P: "\<exists>p. load h (ls_prev n) = Inr p \<and> ls_next p = Node a"
  proof (cases bs rule: rev_cases)
    case Nil
    with s1 m pv show ?thesis
      by (simp add: load_def)
  next
    case (snoc bs' b)
    from s1 obtain m' where "seg h m' [b] (Node a)"
      unfolding snoc seg_append m by blast
    then obtain pb where "block h b = Some pb" "ls_next pb = Node a"
      by (auto split: option.splits)
    with pv snoc show ?thesis
      by (simp add: load_def)
  qed
  have Q: "\<exists>q. load h (ls_next n) = Inr q \<and> ls_prev q = Node a"
  proof (cases cs)
    case Nil
    with s3 lst show ?thesis
      by (simp add: load_def)
  next
    case (Cons c cs')
    from s3 Cons obtain q where "ls_next n = Node c" "block h c = Some q"
      by (auto split: option.splits)
    moreover from b2 Cons this(2) have "ls_prev q = Node a"
      by simp
    ultimately show ?thesis
      by (simp add: load_def)
  qed
  from n P Q show ?thesis by blast
qed

lemma remove_only_frees:
  assumes rg: "ring h as" and bk: "prev_links h Items as" and a: "a \<in> set as"
  shows "fio_hash_ls_remove h (Node a) = Inr (obj_at h a, h\<lparr>heap := (heap h)[a := None]\<rparr>)"
proof -
  from neighbours[OF assms] obtain n p q where n: "block h a = Some n"
    and p: "load h (ls_prev n) = Inr p" "ls_next p = Node a"
    and q: "load h (ls_next n) = Inr q" "ls_prev q = Node a"
    by blast
  have ln: "load h (Node a) = Inr n"
    using n by (simp add: load_def)
  have q': "q\<lparr>ls_prev := ls_next p\<rparr> = q"
    using p(2) q(2) by simp
  have p': "p\<lparr>ls_next := ls_prev q\<rparr> = p"
    using p(2) q(2) by simp
  have s1: "store h (ls_next n) (q\<lparr>ls_prev := ls_next p\<rparr>) = Inr h"
    unfolding q' using q(1) by (rule store_same)
  have s2: "store h (ls_prev n) (p\<lparr>ls_next := ls_prev q\<rparr>) = Inr h"
    unfolding p' using p(1) by (rule store_same)
  have f: "free h (Node a) = Inr (h\<lparr>heap := (heap h)[a := None]\<rparr>)"
    using n by (simp add: free_def)
  have o: "obj_at h a = ls_obj n"
    using n by (simp add: obj_at_def)
  show ?thesis
    unfolding fio_hash_ls_remove_def by (simp add: ln p(1) q(1) s1 s2 f o)
qed

text \<open>
  C4. For a table whose list is well formed in both directions and a key whose slot holds
  the live node \<open>a\<close>: removing the key returns the object of \<open>a\<close>, decrements the count,
  leaves the slot with the key and no container and changes no other slot, and frees
  \<open>a\<close>. But \<open>a\<close> is not taken out of the list: \<open>fio_hash_ls_remove\<close> assigns
  \<open>node->prev->next\<close> (the node itself) to \<open>node->next->prev\<close> and back, so the sentinel
  and every other node keep their links, two of which hold the address of the freed node.
\<close>

theorem remove_frees_without_unlinking:
  assumes "ring h as" "prev_links h Items as" "a \<in> set as"
    and "fio_hash_seek h key = Inr (Some i)" "info_container (map_data h ! i) = Node a"
  shows "fio_hash_insert h key 0 =
     Some (Inr (obj_at h a,
       h\<lparr>h_count := h_count h - 1,
         heap := (heap h)[a := None],
         map_data := (map_data h)[i := \<lparr>info_key = key, info_container = Null\<rparr>]\<rparr>))"
proof -
  let ?h1 = "h\<lparr>h_count := h_count h - 1\<rparr>"
  from seek_Some_any[OF assms(4)] have il: "i < length (map_data h)"
    by simp
  have r1: "ring ?h1 as"
    by (subst ring_heap_eq[of ?h1 h]) (simp_all add: assms(1))
  have "prev_links ?h1 p xs = prev_links h p xs" for p xs
    by (induction xs arbitrary: p) (auto simp: block_def split: option.splits)
  then have b1: "prev_links ?h1 Items as"
    using assms(2) by simp
  have rm: "fio_hash_ls_remove ?h1 (Node a) =
      Inr (obj_at ?h1 a, ?h1\<lparr>heap := (heap ?h1)[a := None]\<rparr>)"
    using r1 b1 assms(3) by (rule remove_only_frees)
  have o: "obj_at ?h1 a = obj_at h a"
    by (simp add: obj_at_def block_def)
  show ?thesis
    using assms(4,5) il rm o
    by (simp add: fio_hash_insert_def insert_rehash_loop.simps insert_at_def Let_def)
qed

theorem remove_frees_without_unlinking_witness:
  "ring (after [(1, 10)]) [0] \<and> prev_links (after [(1, 10)]) Items [0] \<and> 0 \<in> set [0 :: nat] \<and>
   fio_hash_seek (after [(1, 10)]) 1 = Inr (Some 1) \<and>
   info_container (map_data (after [(1, 10)]) ! 1) = Node 0 \<and>
   fio_hash_insert (after [(1, 10)]) 1 0 =
     Some (Inr (10,
       \<lparr>h_count = 0, h_mask = 15,
        h_items = \<lparr>ls_prev = Node 0, ls_next = Node 0, ls_key = 0, ls_obj = 0\<rparr>,
        map_capa = 16,
        map_data = (replicate 16 zero_slot)[1 := \<lparr>info_key = 1, info_container = Null\<rparr>],
        heap = [None]\<rparr>))"
proof -
  let ?h = "after [(1, 10)]"
  have 1: "ring ?h [0]" "prev_links ?h Items [0]"
    by code_simp+
  have 2: "0 \<in> set [0 :: nat]"
    by simp
  have 3: "fio_hash_seek ?h 1 = Inr (Some 1)" "info_container (map_data ?h ! 1) = Node 0"
    by code_simp+
  have 4: "obj_at ?h 0 = 10"
    by code_simp
  have 5: "?h\<lparr>h_count := h_count ?h - 1, heap := (heap ?h)[0 := None],
         map_data := (map_data ?h)[1 := \<lparr>info_key = 1, info_container = Null\<rparr>]\<rparr> =
       \<lparr>h_count = 0, h_mask = 15,
        h_items = \<lparr>ls_prev = Node 0, ls_next = Node 0, ls_key = 0, ls_obj = 0\<rparr>,
        map_capa = 16,
        map_data = (replicate 16 zero_slot)[1 := \<lparr>info_key = 1, info_container = Null\<rparr>],
        heap = [None]\<rparr>"
    by code_simp
  from remove_frees_without_unlinking[OF 1 2 3]
  have "fio_hash_insert ?h 1 0 =
     Some (Inr (10,
       \<lparr>h_count = 0, h_mask = 15,
        h_items = \<lparr>ls_prev = Node 0, ls_next = Node 0, ls_key = 0, ls_obj = 0\<rparr>,
        map_capa = 16,
        map_data = (replicate 16 zero_slot)[1 := \<lparr>info_key = 1, info_container = Null\<rparr>],
        heap = [None]\<rparr>))"
    unfolding 4 5 .
  with 1 2 3 show ?thesis
    by blast
qed

section \<open>Iteration\<close>

lemma visits_le: "fst (visits task es arg) \<le> length es"
proof (induction es arbitrary: arg)
  case Nil
  show ?case by simp
next
  case (Cons e es)
  obtain key obj where e: "e = (key, obj)" by (cases e)
  obtain r arg' where t: "task key obj arg = (r, arg')" by (cases "task key obj arg")
  obtain n arg'' where v: "visits task es arg' = (n, arg'')" by (cases "visits task es arg'")
  from Cons[of arg'] v have "n \<le> length es" by simp
  with t v show ?case by (simp add: e)
qed

lemma entries_Cons:
  "block h a = Some n \<Longrightarrow> entries h (a # as) = (ls_key n, ls_obj n) # entries h as"
  by (simp add: entries_def key_at_def obj_at_def)

lemma each_skip_seg:
  "seg h p xs Items \<Longrightarrow> i \<le> start_at \<Longrightarrow> unat start_at - unat i \<le> length xs \<Longrightarrow>
   \<exists>q. each_skip h start_at p i = Some (Inr (q, start_at)) \<and>
        seg h q (drop (unat start_at - unat i) xs) Items"
proof (induction xs arbitrary: p i)
  case Nil
  then have p: "p = Items" by simp
  from Nil.prems(3) have "unat start_at \<le> unat i" by simp
  with Nil.prems(2) have "i = start_at"
    by (simp add: word_le_nat_alt word_unat_eq_iff)
  then show ?case
    using p by (subst each_skip.simps) simp
next
  case (Cons a rest)
  from Cons.prems(1) obtain n where p: "p = Node a" and n: "block h a = Some n"
    and sg: "seg h (ls_next n) rest Items"
    by (auto split: option.splits)
  have ld: "load h p = Inr n"
    using p n by (simp add: load_def)
  show ?case
  proof (cases "i < start_at")
    case True
    have st: "each_skip h start_at p i = each_skip h start_at (ls_next n) (i + 1)"
      using True p ld by (subst each_skip.simps) simp
    have ui: "unat (i + 1) = Suc (unat i)"
      using True by (rule unat_inc_below)
    have le: "i + 1 \<le> start_at"
      using True by (rule inc_le)
    from True have "unat i < unat start_at"
      by (simp add: word_less_nat_alt)
    with Cons.prems(3) have b: "unat start_at - unat (i + 1) \<le> length rest"
      and d: "unat start_at - unat i = Suc (unat start_at - unat (i + 1))"
      unfolding ui by simp_all
    from Cons.IH[OF sg le b] obtain q where
      "each_skip h start_at (ls_next n) (i + 1) = Some (Inr (q, start_at))"
      "seg h q (drop (unat start_at - unat (i + 1)) rest) Items"
      by blast
    then show ?thesis
      unfolding st d by (intro exI[of _ q]) simp
  next
    case False
    with Cons.prems(2) have eq: "i = start_at"
      by simp
    have "each_skip h start_at p i = Some (Inr (p, start_at))"
      using eq by (subst each_skip.simps) simp
    with Cons.prems(1) eq show ?thesis
      by (intro exI[of _ p]) simp
  qed
qed

lemma each_visit_seg:
  "seg h p xs Items \<Longrightarrow>
   each_visit h task p i arg calls =
     (case visits task (entries h xs) arg of
        (n, arg') \<Rightarrow> Some (Inr (i + of_nat n, arg', calls @ take n (entries h xs))))"
proof (induction xs arbitrary: p i arg calls)
  case Nil
  then have "p = Items" by simp
  then show ?case
    by (subst each_visit.simps) (simp add: entries_def)
next
  case (Cons a rest)
  from Cons.prems(1) obtain n where p: "p = Node a" and n: "block h a = Some n"
    and sg: "seg h (ls_next n) rest Items"
    by (auto split: option.splits)
  have ld: "load h p = Inr n"
    using p n by (simp add: load_def)
  have en: "entries h (a # rest) = (ls_key n, ls_obj n) # entries h rest"
    using n by (rule entries_Cons)
  obtain r arg' where t: "task (ls_key n) (ls_obj n) arg = (r, arg')"
    by (cases "task (ls_key n) (ls_obj n) arg")
  show ?case
  proof (cases "r = - 1")
    case True
    have "each_visit h task p i arg calls =
        Some (Inr (i + 1, arg', calls @ [(ls_key n, ls_obj n)]))"
      using p ld t True by (subst each_visit.simps) simp
    then show ?thesis
      using t True by (simp add: en)
  next
    case False
    obtain m arg'' where v: "visits task (entries h rest) arg' = (m, arg'')"
      by (cases "visits task (entries h rest) arg'")
    have "each_visit h task p i arg calls =
        each_visit h task (ls_next n) (i + 1) arg' (calls @ [(ls_key n, ls_obj n)])"
      using p ld t False by (subst each_visit.simps) simp
    also have "\<dots> = Some (Inr (i + 1 + of_nat m, arg'',
          (calls @ [(ls_key n, ls_obj n)]) @ take m (entries h rest)))"
      using Cons.IH[OF sg, of "i + 1" arg' "calls @ [(ls_key n, ls_obj n)]"] v by simp
    finally show ?thesis
      using t False v by (simp add: en add.assoc)
  qed
qed

text \<open>
  On a table with a well-formed list of as many nodes as the count says,
  \<open>fio_hash_each\<close> returns; when \<open>start_at\<close> is not below the count it returns the count
  and the visitor is not called; otherwise it returns \<open>start_at\<close> plus the number of
  calls of the visitor, and the calls are those of \<open>visits\<close> on the entries from position
  \<open>start_at\<close> on: in list order, until the list ends or the visitor returns \<open>-1\<close>.
\<close>

theorem each_position:
  assumes "ring h as" "unat (h_count h) = length as"
  shows "\<exists>pos arg' calls. fio_hash_each h start_at task arg = Some (Inr (pos, arg', calls)) \<and>
     (if h_count h \<le> start_at then pos = h_count h \<and> arg' = arg \<and> calls = []
      else pos = start_at + of_nat (length calls) \<and>
           visits task (drop (unat start_at) (entries h as)) arg = (length calls, arg') \<and>
           calls = take (length calls) (drop (unat start_at) (entries h as)))"
proof (cases "h_count h \<le> start_at")
  case True
  then show ?thesis
    by (simp add: fio_hash_each_def)
next
  case False
  then have "unat start_at < unat (h_count h)"
    by (simp add: word_less_nat_alt not_le)
  with assms(2) have b: "unat start_at - unat (0 :: size_t) \<le> length as"
    by simp
  from assms(1) have sg: "seg h (ls_next (h_items h)) as Items"
    by (simp add: ring_def)
  have z: "(0 :: size_t) \<le> start_at"
    by simp
  from each_skip_seg[OF sg z b] obtain q where
    sk: "each_skip h start_at (ls_next (h_items h)) 0 = Some (Inr (q, start_at))"
    and sq: "seg h q (drop (unat start_at) as) Items"
    by auto
  let ?es = "drop (unat start_at) (entries h as)"
  have es: "entries h (drop (unat start_at) as) = ?es"
    by (simp add: entries_def drop_map)
  obtain n arg' where v: "visits task ?es arg = (n, arg')"
    by (cases "visits task ?es arg")
  from visits_le[of task ?es arg] v have nl: "n \<le> length ?es"
    by simp
  have "fio_hash_each h start_at task arg = each_visit h task q start_at arg []"
    using False sk by (simp add: fio_hash_each_def)
  also have "\<dots> = Some (Inr (start_at + of_nat n, arg', take n ?es))"
    using each_visit_seg[OF sq, of task start_at arg "[]"] v by (simp add: es)
  finally have e: "fio_hash_each h start_at task arg =
      Some (Inr (start_at + of_nat n, arg', take n ?es))" .
  have l: "length (take n ?es) = n"
    using nl by simp
  show ?thesis
    using False e v l
    by (intro exI[of _ "start_at + of_nat n"] exI[of _ arg'] exI[of _ "take n ?es"]) simp
qed

theorem each_position_witness:
  "ring crowded [0, 1, 2, 3, 4, 5, 6] \<and> unat (h_count crowded) = length [0, 1, 2, 3, 4, 5, 6 :: nat] \<and>
   fio_hash_each crowded 2 (stop_at 80) 0 = Some (Inr (5, 12, [(48, 3), (64, 4), (80, 5)])) \<and>
   fio_hash_each crowded 9 (stop_at 80) 0 = Some (Inr (7, 0, []))"
proof -
  have 1: "ring crowded [0, 1, 2, 3, 4, 5, 6]"
    by code_simp
  have 2: "unat (h_count crowded) = length [0, 1, 2, 3, 4, 5, 6 :: nat]"
    by code_simp
  have 3: "fio_hash_each crowded 2 (stop_at 80) 0 = Some (Inr (5, 12, [(48, 3), (64, 4), (80, 5)]))"
    by code_simp
  have 4: "fio_hash_each crowded 9 (stop_at 80) 0 = Some (Inr (7, 0, []))"
    by code_simp
  from each_position[OF 1 2, of 2 "stop_at 80" 0] 3
  have "(5 :: size_t) = 2 + of_nat (length [(48 :: uintptr_t, 3 :: voidp), (64, 4), (80, 5)])"
    by simp
  with 1 2 3 4 show ?thesis
    by blast
qed

text \<open>
  C8. The table left by three insertions and the removal of the second key has the count
  2 and a list that still passes through the freed node. With \<open>start_at\<close> 2, not below
  the count, \<open>fio_hash_each\<close> returns the count without a call of the visitor. With
  \<open>start_at\<close> 0 or 1, below the count, it does not return \<open>start_at\<close> plus the number of
  nodes visited: it reads the freed node, from 1 before any call of the visitor and from
  0 after the call on the first node.
\<close>

theorem each_below_count_reads_freed_node:
  "upserts fio_hash_new [(1, 10), (2, 20), (3, 30), (2, 0)] =
     Some (Inr (after [(1, 10), (2, 20), (3, 30), (2, 0)])) \<and>
   fio_hash_count (after [(1, 10), (2, 20), (3, 30), (2, 0)]) = 2 \<and>
   ls_next (h_items (after [(1, 10), (2, 20), (3, 30), (2, 0)])) = Node 0 \<and>
   load (after [(1, 10), (2, 20), (3, 30), (2, 0)]) (Node 0) =
     Inr \<lparr>ls_prev = Items, ls_next = Node 1, ls_key = 1, ls_obj = 10\<rparr> \<and>
   load (after [(1, 10), (2, 20), (3, 30), (2, 0)]) (Node 1) = Inl Dangling \<and>
   fio_hash_each (after [(1, 10), (2, 20), (3, 30), (2, 0)]) 2 (stop_at 0) 0 =
     Some (Inr (2, 0, [])) \<and>
   fio_hash_each (after [(1, 10), (2, 20), (3, 30), (2, 0)]) 1 (stop_at 0) 0 =
     Some (Inl Dangling) \<and>
   fio_hash_each (after [(1, 10), (2, 20), (3, 30), (2, 0)]) 0 (stop_at 0) 0 =
     Some (Inl Dangling)"
  by code_simp

end
